theory Spec2Isabelle
  imports Main "HOL-Library.Sublist"
begin

section \<open>The scope-renaming script \<open>scripts/rename-scope.js\<close>\<close>

text \<open>
  The script is modelled function by function. JavaScript strings are sequences of UTF-16
  code units; here a string is a \<open>char list\<close> and a \<open>char\<close> stands for a code unit
  below 256 (ASCII and the Latin-1 block), which covers every character the script's
  patterns mention. Built-in methods the script calls (\<open>RegExp.prototype.test\<close>,
  \<open>String.prototype.match\<close>, \<open>replace\<close>, \<open>split\<close>, \<open>trim\<close>, \<open>toLowerCase\<close>, \<open>Set\<close>) are
  modelled after ECMA-262 for the forms in which the script uses them.
\<close>

subsection \<open>Regular expressions as the script writes them\<close>

text \<open>
  The three regular expressions of the script use only the line anchors, literal
  characters, character classes, a greedy \<open>*\<close> or \<open>+\<close> on a character class, an optional
  group and sequencing. A position is the index in the input together with the input
  from that index on.
\<close>

type_synonym cls = "char \<Rightarrow> bool"

datatype rexp =
    Bol
  | Eol
  | Lit string
  | Cls cls
  | ClsStar cls
  | ClsPlus cls
  | Opt rexp
  | Seq rexp rexp

type_synonym pos = "nat \<times> string"

text \<open>Greedy repetition of a class: the longest run first, then shorter ones (backtracking order).\<close>

fun cls_star :: "cls \<Rightarrow> pos \<Rightarrow> pos list" where
  "cls_star p (k, []) = [(k, [])]"
| "cls_star p (k, c # cs) =
     (if p c then cls_star p (Suc k, cs) @ [(k, c # cs)] else [(k, c # cs)])"

text \<open>
  \<open>rmatch r x\<close> lists the positions at which a match of \<open>r\<close> that starts at \<open>x\<close> can
  end, in the order in which a backtracking matcher tries them. An optional group that
  matched the empty string is rejected (RepeatMatcher, step 2.b of ECMA-262).
\<close>

fun rmatch :: "rexp \<Rightarrow> pos \<Rightarrow> pos list" where
  "rmatch Bol (k, s) = (if k = 0 then [(k, s)] else [])"
| "rmatch Eol (k, s) = (if s = [] then [(k, s)] else [])"
| "rmatch (Lit l) (k, s) =
     (if prefix l s then [(k + length l, drop (length l) s)] else [])"
| "rmatch (Cls p) (k, s) =
     (case s of [] \<Rightarrow> [] | c # cs \<Rightarrow> if p c then [(Suc k, cs)] else [])"
| "rmatch (ClsStar p) (k, s) = cls_star p (k, s)"
| "rmatch (ClsPlus p) (k, s) =
     (case s of [] \<Rightarrow> [] | c # cs \<Rightarrow> if p c then cls_star p (Suc k, cs) else [])"
| "rmatch (Opt r) (k, s) = filter (\<lambda>y. fst y \<noteq> k) (rmatch r (k, s)) @ [(k, s)]"
| "rmatch (Seq r1 r2) (k, s) = concat (map (rmatch r2) (rmatch r1 (k, s)))"

text \<open>
  RegExpBuiltinExec for a regular expression without the \<open>g\<close> and \<open>y\<close> flags: try the
  start index, then every later one, up to and including the end of the input.
\<close>

fun exec_from :: "rexp \<Rightarrow> pos \<Rightarrow> (pos \<times> pos) option" where
  "exec_from r (k, []) = (case rmatch r (k, []) of [] \<Rightarrow> None | e # _ \<Rightarrow> Some ((k, []), e))"
| "exec_from r (k, c # cs) =
     (case rmatch r (k, c # cs) of
        [] \<Rightarrow> exec_from r (Suc k, cs)
      | e # _ \<Rightarrow> Some ((k, c # cs), e))"

definition regex_test :: "rexp \<Rightarrow> string \<Rightarrow> bool" where
  "regex_test r s = (exec_from r (0, s) \<noteq> None)"

subsection \<open>Character classes\<close>

definition in_range :: "char \<Rightarrow> char \<Rightarrow> char \<Rightarrow> bool" where
  "in_range lo hi c = ((of_char lo :: nat) \<le> of_char c \<and> (of_char c :: nat) \<le> of_char hi)"

text \<open>\<open>[a-z0-9]\<close>\<close>

definition lower_digit :: cls where
  "lower_digit c = (in_range (CHR ''a'') (CHR ''z'') c \<or> in_range (CHR ''0'') (CHR ''9'') c)"

text \<open>\<open>[a-z0-9-]\<close>\<close>

definition lower_digit_hyphen :: cls where
  "lower_digit_hyphen c =
     (in_range (CHR ''a'') (CHR ''z'') c \<or> in_range (CHR ''0'') (CHR ''9'') c \<or> c = CHR ''-'')"

text \<open>\<open>\w\<close> without the \<open>i\<close> and \<open>u\<close> flags is \<open>[A-Za-z0-9_]\<close>; \<open>[\w-]\<close> adds the hyphen.\<close>

definition word_char :: cls where
  "word_char c =
     (in_range (CHR ''a'') (CHR ''z'') c \<or> in_range (CHR ''A'') (CHR ''Z'') c \<or>
      in_range (CHR ''0'') (CHR ''9'') c \<or> c = CHR ''_'')"

definition word_hyphen :: cls where
  "word_hyphen c = (word_char c \<or> c = CHR ''-'')"

subsection \<open>\<open>isValidScope\<close>\<close>

text \<open>\<open>/^[a-z0-9]([a-z0-9-]*[a-z0-9])?$/\<close>\<close>

definition scope_regex :: rexp where
  "scope_regex =
     Seq Bol (Seq (Cls lower_digit)
       (Seq (Opt (Seq (ClsStar lower_digit_hyphen) (Cls lower_digit))) Eol))"

definition isValidScope :: "string \<Rightarrow> bool" where
  "isValidScope scope = regex_test scope_regex scope"

text \<open>
  The scope-name predicate in the words of the specification: lowercase alphanumeric
  characters and hyphens only, at least one character, no hyphen first or last.
\<close>

definition scope_name_spec :: "string \<Rightarrow> bool" where
  "scope_name_spec s =
     (s \<noteq> [] \<and> list_all lower_digit_hyphen s \<and> hd s \<noteq> CHR ''-'' \<and> last s \<noteq> CHR ''-'')"

definition upper_case :: cls where
  "upper_case c = in_range (CHR ''A'') (CHR ''Z'') c"

subsection \<open>Global matching and replacing\<close>

text \<open>
  A match never moves backwards: every end position \<open>rmatch\<close> returns is the start
  position advanced over a prefix of the remaining input. The loops below terminate
  because of this.
\<close>

lemma cls_star_iff:
  "(j, u) \<in> set (cls_star p (k, s)) \<longleftrightarrow> (\<exists>w. s = w @ u \<and> list_all p w \<and> j = k + length w)"
proof (induction s arbitrary: k)
  case Nil
  then show ?case by auto
next
  case (Cons c cs)
  show ?case
  proof (cases "p c")
    case True
    then show ?thesis
      using Cons.IH [of "Suc k"] by (auto simp: Cons_eq_append_conv)
  next
    case False
    then show ?thesis by (auto simp: Cons_eq_append_conv)
  qed
qed

lemma rmatch_progress:
  "(j, u) \<in> set (rmatch r (k, s)) \<Longrightarrow> \<exists>w. s = w @ u \<and> j = k + length w"
proof (induction r arbitrary: j u k s)
  case (Lit l)
  then show ?case by (auto simp: prefix_def split: if_splits)
next
  case (Cls p)
  then show ?case by (auto split: list.splits if_splits)
next
  case (ClsStar p)
  then show ?case by (auto simp: cls_star_iff)
next
  case (ClsPlus p)
  then show ?case by (fastforce simp: cls_star_iff split: list.splits if_splits)
next
  case (Seq r1 r2)
  from Seq.prems obtain i t where m: "(i, t) \<in> set (rmatch r1 (k, s))"
    and e: "(j, u) \<in> set (rmatch r2 (i, t))" by auto
  from Seq.IH(1) [OF m] obtain w1 where "s = w1 @ t" "i = k + length w1" by blast
  moreover from Seq.IH(2) [OF e] obtain w2 where "t = w2 @ u" "j = i + length w2" by blast
  ultimately have "s = (w1 @ w2) @ u \<and> j = k + length (w1 @ w2)" by simp
  then show ?case by blast
qed (auto split: if_splits)

lemma rmatch_shorter:
  assumes "rmatch r (k, s) = (j, u) # rest" and "j \<noteq> k"
  shows "length u < length s"
proof -
  from assms(1) have "(j, u) \<in> set (rmatch r (k, s))" by simp
  from rmatch_progress [OF this] assms(2) show ?thesis by auto
qed

text \<open>
  \<open>String.prototype.match\<close> with a \<open>g\<close> regular expression: all matches from left to
  right, each search resuming where the previous match ended (one further after an
  empty match). The result is \<open>null\<close> when there is no match.
\<close>

function match_from :: "rexp \<Rightarrow> pos \<Rightarrow> string list" where
  "match_from r (k, s) =
     (case rmatch r (k, s) of
        [] \<Rightarrow> (case s of [] \<Rightarrow> [] | c # cs \<Rightarrow> match_from r (Suc k, cs))
      | (j, u) # _ \<Rightarrow>
          take (j - k) s #
          (if j = k then (case s of [] \<Rightarrow> [] | c # cs \<Rightarrow> match_from r (Suc k, cs))
           else match_from r (j, u)))"
  by pat_completeness auto
termination
  by (relation "measure (\<lambda>(r, k, s). length s)") (auto dest: rmatch_shorter)

declare match_from.simps [simp del]

definition js_match :: "rexp \<Rightarrow> string \<Rightarrow> string list option" where
  "js_match r s = (case match_from r (0, s) of [] \<Rightarrow> None | m # ms \<Rightarrow> Some (m # ms))"

text \<open>
  GetSubstitution for a regular expression without capture groups: in the replacement
  text \<open>$$\<close> is a dollar sign, \<open>$&\<close> the matched text, \<open>$`\<close> the input before the match
  and \<open>$'\<close> the input after it; any other character, a \<open>$\<close> before a digit or before
  \<open><\<close> included, stands for itself.
\<close>

fun GetSubstitution :: "string \<Rightarrow> string \<Rightarrow> string \<Rightarrow> string \<Rightarrow> string" where
  "GetSubstitution matched preceding following [] = []"
| "GetSubstitution matched preceding following [c] = [c]"
| "GetSubstitution matched preceding following (c # d # t) =
     (if c = CHR ''$'' \<and> d = CHR ''$'' then CHR ''$'' # GetSubstitution matched preceding following t
      else if c = CHR ''$'' \<and> d = CHR ''&'' then matched @ GetSubstitution matched preceding following t
      else if c = CHR ''$'' \<and> d = CHR 0x60 then preceding @ GetSubstitution matched preceding following t
      else if c = CHR ''$'' \<and> d = CHR 0x27 then following @ GetSubstitution matched preceding following t
      else c # GetSubstitution matched preceding following (d # t))"

text \<open>
  \<open>String.prototype.replace\<close> with a \<open>g\<close> regular expression and a replacement string:
  the input is copied, each match replaced by its substitution.
\<close>

function replace_from :: "rexp \<Rightarrow> string \<Rightarrow> string \<Rightarrow> pos \<Rightarrow> string" where
  "replace_from r tmpl inp (k, s) =
     (case rmatch r (k, s) of
        [] \<Rightarrow> (case s of [] \<Rightarrow> [] | c # cs \<Rightarrow> c # replace_from r tmpl inp (Suc k, cs))
      | (j, u) # _ \<Rightarrow>
          GetSubstitution (take (j - k) s) (take k inp) u tmpl @
          (if j = k then (case s of [] \<Rightarrow> [] | c # cs \<Rightarrow> c # replace_from r tmpl inp (Suc k, cs))
           else replace_from r tmpl inp (j, u)))"
  by pat_completeness auto
termination
  by (relation "measure (\<lambda>(r, tmpl, inp, k, s). length s)") (auto dest: rmatch_shorter)

declare replace_from.simps [simp del]

definition js_replace :: "rexp \<Rightarrow> string \<Rightarrow> string \<Rightarrow> string" where
  "js_replace r tmpl s = replace_from r tmpl s (0, s)"

text \<open>\<open>[...new Set(xs)]\<close>: the distinct elements in the order of their first occurrence.\<close>

definition set_add :: "'a list \<Rightarrow> 'a \<Rightarrow> 'a list" where
  "set_add xs x = (if x \<in> set xs then xs else xs @ [x])"

definition new_Set :: "'a list \<Rightarrow> 'a list" where
  "new_Set xs = foldl set_add [] xs"

subsection \<open>\<open>findReferences\<close>, \<open>countFileReferences\<close>, \<open>replaceReferences\<close>\<close>

text \<open>\<open>/@ordinarysh\/[\w-]+/g\<close> and \<open>/@ordinarysh\//g\<close>\<close>

definition reference_regex :: rexp where
  "reference_regex = Seq (Lit ''@ordinarysh/'') (ClsPlus word_hyphen)"

definition prefix_regex :: rexp where
  "prefix_regex = Lit ''@ordinarysh/''"

text \<open>
  The callers pass a string for \<open>content\<close>, never \<open>null\<close>, so \<open>!content\<close> is the test for
  the empty string.
\<close>

definition findReferences :: "string \<Rightarrow> string list" where
  "findReferences content =
     (if content = [] then []
      else let matches = (case js_match reference_regex content of None \<Rightarrow> [] | Some ms \<Rightarrow> ms)
           in new_Set matches)"

definition countFileReferences :: "string \<Rightarrow> nat" where
  "countFileReferences content =
     (if content = [] then 0
      else let matches = (case js_match reference_regex content of None \<Rightarrow> [] | Some ms \<Rightarrow> ms)
           in length matches)"

definition replaceReferences :: "string \<Rightarrow> string \<Rightarrow> string" where
  "replaceReferences content newScope =
     (if content = [] then content
      else js_replace prefix_regex (''@'' @ newScope @ ''/'') content)"

subsection \<open>The file system and the environment\<close>

text \<open>
  An error thrown by the runtime carries a code and a message. The file system maps a
  path to the text stored there; a path may in addition be marked as failing to read or
  to write with a given error (permissions, I/O). Reading a path that has no file fails
  with code \<open>ENOENT\<close>. A write that fails leaves the file system as it was.
\<close>

datatype js_error = SystemError (code: string) (message: string)

record filesystem =
  files :: "string \<rightharpoonup> string"
  read_fails :: "string \<rightharpoonup> js_error"
  write_fails :: "string \<rightharpoonup> js_error"

definition readFileSync :: "filesystem \<Rightarrow> string \<Rightarrow> js_error + string" where
  "readFileSync fs p =
     (case read_fails fs p of
        Some e \<Rightarrow> Inl e
      | None \<Rightarrow>
          (case files fs p of
             None \<Rightarrow> Inl (SystemError ''ENOENT'' ''ENOENT: no such file or directory'')
           | Some text \<Rightarrow> Inr text))"

definition writeFileSync :: "filesystem \<Rightarrow> string \<Rightarrow> string \<Rightarrow> js_error + filesystem" where
  "writeFileSync fs p text =
     (case write_fails fs p of
        Some e \<Rightarrow> Inl e
      | None \<Rightarrow> Inr (fs\<lparr>files := (files fs)(p \<mapsto> text)\<rparr>))"

text \<open>
  What the script takes from outside: the expansion of a glob pattern under the root
  directory (with the script's ignore list), the root directory and \<open>path.join\<close>.
\<close>

record env =
  globSync :: "string \<Rightarrow> string list"
  rootDir :: string
  path_join :: "string \<Rightarrow> string \<Rightarrow> string"

definition globPatterns :: "string list" where
  "globPatterns =
     [''apps/**/package.json'', ''apps/**/tsconfig.json'', ''apps/**/*.config.js'',
      ''apps/**/*.config.mjs'', ''apps/**/*.config.ts'', ''apps/**/*.tsx'', ''apps/**/*.ts'',
      ''packages/**/package.json'', ''packages/**/tsconfig.json'', ''packages/**/*.config.js'',
      ''packages/**/*.config.mjs'', ''packages/**/*.mjs'']"

definition getFilesToScan :: "env \<Rightarrow> string list" where
  "getFilesToScan e =
     foldl (\<lambda>files pattern. foldl set_add files (globSync e pattern)) [] globPatterns"

subsection \<open>Command-line arguments\<close>

fun indexOf_from :: "'a list \<Rightarrow> 'a \<Rightarrow> nat \<Rightarrow> int" where
  "indexOf_from [] x i = - 1"
| "indexOf_from (y # ys) x i = (if y = x then int i else indexOf_from ys x (Suc i))"

definition indexOf :: "'a list \<Rightarrow> 'a \<Rightarrow> int" where
  "indexOf xs x = indexOf_from xs x 0"

text \<open>Reading an array at an index: \<open>undefined\<close> (here \<open>None\<close>) outside the array.\<close>

definition js_index :: "'a list \<Rightarrow> nat \<Rightarrow> 'a option" where
  "js_index xs i = (if i < length xs then Some (xs ! i) else None)"

definition dryRun :: "string list \<Rightarrow> bool" where
  "dryRun args = (''--dry-run'' \<in> set args \<or> ''--check'' \<in> set args)"

definition newScope_arg :: "string list \<Rightarrow> string option" where
  "newScope_arg args =
     (let scopeIndex = indexOf args ''--scope'' in
      if scopeIndex \<noteq> - 1 then
        (case js_index args (nat (scopeIndex + 1)) of
           None \<Rightarrow> None
         | Some a \<Rightarrow> if a \<noteq> [] then Some a else None)
      else None)"

subsection \<open>\<open>readFileContent\<close>, \<open>writeFileContent\<close>\<close>

definition readFileContent :: "filesystem \<Rightarrow> string \<Rightarrow> js_error + string option" where
  "readFileContent fs filePath =
     (case readFileSync fs filePath of
        Inr text \<Rightarrow> Inr (Some text)
      | Inl err \<Rightarrow> if code err = ''ENOENT'' then Inr None else Inl err)"

definition writeFileContent ::
  "bool \<Rightarrow> filesystem \<Rightarrow> string \<Rightarrow> string \<Rightarrow> js_error + filesystem" where
  "writeFileContent dry fs filePath text =
     (if dry then Inr fs else writeFileSync fs filePath text)"

subsection \<open>\<open>scanFiles\<close>, \<open>countReferences\<close>, \<open>applyRenaming\<close>\<close>

record finding =
  "file" :: string
  fullPath :: string
  content :: string
  references :: "string list"

fun scan_loop :: "env \<Rightarrow> filesystem \<Rightarrow> string list \<Rightarrow> finding list \<Rightarrow> js_error + finding list" where
  "scan_loop e fs [] findings = Inr findings"
| "scan_loop e fs (f # rest) findings =
     (let full = path_join e (rootDir e) f in
      case readFileContent fs full of
        Inl err \<Rightarrow> Inl err
      | Inr None \<Rightarrow> scan_loop e fs rest findings
      | Inr (Some text) \<Rightarrow>
          if text = [] then scan_loop e fs rest findings
          else
            let refs = findReferences text in
            if length refs > 0 then
              scan_loop e fs rest
                (findings @ [\<lparr>file = f, fullPath = full, content = text, references = refs\<rparr>])
            else scan_loop e fs rest findings)"

definition scanFiles :: "env \<Rightarrow> filesystem \<Rightarrow> js_error + finding list" where
  "scanFiles e fs = scan_loop e fs (getFilesToScan e) []"

definition countReferences :: "finding list \<Rightarrow> nat" where
  "countReferences findings = foldl (\<lambda>sum f. sum + length (references f)) 0 findings"

text \<open>
  The loop of \<open>applyRenaming\<close>. A failed write throws out of the loop; the file system
  then holds the writes made so far.
\<close>

fun apply_loop ::
  "bool \<Rightarrow> string \<Rightarrow> finding list \<Rightarrow> nat \<Rightarrow> filesystem \<Rightarrow> (js_error + nat) \<times> filesystem" where
  "apply_loop dry newScope [] updatedCount fs = (Inr updatedCount, fs)"
| "apply_loop dry newScope (f # rest) updatedCount fs =
     (let newContent = replaceReferences (content f) newScope in
      case writeFileContent dry fs (fullPath f) newContent of
        Inl err \<Rightarrow> (Inl err, fs)
      | Inr fs' \<Rightarrow> apply_loop dry newScope rest (Suc updatedCount) fs')"

definition applyRenaming ::
  "bool \<Rightarrow> finding list \<Rightarrow> string \<Rightarrow> filesystem \<Rightarrow> (js_error + nat) \<times> filesystem" where
  "applyRenaming dry findings newScope fs = apply_loop dry newScope findings 0 fs"

subsection \<open>Console output\<close>

text \<open>
  One constructor for each \<open>console.log\<close>, \<open>console.error\<close> and \<open>rl.question\<close> of the
  script, carrying the values interpolated into the printed text.
\<close>

datatype msg =
    Banner
  | NoReferencesFound
  | FoundTotal nat
  | FileCount string nat
  | Blank
  | Question string
  | ScopeEmpty
  | ScopeInvalid
  | PleaseEnterYN
  | InvalidScopeError
  | AlreadyNamed
  | PreviewHeader string
  | PreviewFile string
  | PreviewRule
  | DiffOld string
  | DiffNew "string option"
  | ConfirmNotice string nat
  | Cancelled
  | Renamed nat
  | AllChanged string
  | NextSteps
  | StepInstall
  | StepBuild
  | StepLint
  | ErrorMessage string

subsection \<open>The prompts\<close>

text \<open>
  \<open>trim\<close> removes white space and line terminators at both ends; below code unit 256
  these are tab, line feed, vertical tab, form feed, carriage return, space and the
  no-break space. \<open>toLowerCase\<close> maps \<open>A\<close> to \<open>Z\<close> and the upper-case letters of the
  Latin-1 block (\<open>0xC0\<close> to \<open>0xDE\<close> without \<open>0xD7\<close>) to the code unit 32 above.
\<close>

definition white_space :: cls where
  "white_space c = ((of_char c :: nat) \<in> {9, 10, 11, 12, 13, 32, 160})"

definition trim :: "string \<Rightarrow> string" where
  "trim s = rev (dropWhile white_space (rev (dropWhile white_space s)))"

definition lower_char :: "char \<Rightarrow> char" where
  "lower_char c =
     (let n = (of_char c :: nat) in
      if (65 \<le> n \<and> n \<le> 90) \<or> (192 \<le> n \<and> n \<le> 222 \<and> n \<noteq> 215) then char_of (n + 32) else c)"

definition toLowerCase :: "string \<Rightarrow> string" where
  "toLowerCase s = map lower_char s"

text \<open>
  The interactive input is the list of lines that will be typed. Each round of a prompt
  asks its question and takes the next line; when no line is left the question stays
  unanswered and the prompt never returns (\<open>None\<close>). A prompt returns its answer, the
  lines not yet read and what it printed.
\<close>

fun promptForScope :: "string list \<Rightarrow> string option \<times> string list \<times> msg list" where
  "promptForScope [] = (None, [], [Question ''Enter new scope name (e.g., ordinarysh): ''])"
| "promptForScope (input # rest) =
     (let answer = trim input in
      if answer = [] then
        (case promptForScope rest of (r, left, out) \<Rightarrow>
           (r, left, Question ''Enter new scope name (e.g., ordinarysh): '' # ScopeEmpty # out))
      else if \<not> isValidScope answer then
        (case promptForScope rest of (r, left, out) \<Rightarrow>
           (r, left, Question ''Enter new scope name (e.g., ordinarysh): '' # ScopeInvalid # out))
      else (Some answer, rest, [Question ''Enter new scope name (e.g., ordinarysh): '']))"

fun promptConfirmation :: "string \<Rightarrow> string list \<Rightarrow> bool option \<times> string list \<times> msg list" where
  "promptConfirmation query [] = (None, [], [Question query])"
| "promptConfirmation query (input # rest) =
     (let answer = toLowerCase (trim input) in
      if answer = [] \<or> answer = ''n'' \<or> answer = ''no'' then (Some False, rest, [Question query])
      else if answer = ''y'' \<or> answer = ''yes'' then (Some True, rest, [Question query])
      else
        (case promptConfirmation query rest of (r, left, out) \<Rightarrow>
           (r, left, Question query # PleaseEnterYN # out)))"

subsection \<open>The diff preview\<close>

text \<open>\<open>split('\n')\<close>: the pieces between line feeds; one piece more than there are line feeds.\<close>

fun split_at :: "char \<Rightarrow> string \<Rightarrow> string list" where
  "split_at d [] = [[]]"
| "split_at d (c # cs) =
     (if c = d then [] # split_at d cs
      else (case split_at d cs of [] \<Rightarrow> [[c]] | l # ls \<Rightarrow> (c # l) # ls))"

definition split_lines :: "string \<Rightarrow> string list" where
  "split_lines s = split_at (CHR 0x0A) s"

text \<open>The inner loop of the preview, over the indices of the old lines.\<close>

definition diff_lines :: "string list \<Rightarrow> string list \<Rightarrow> msg list" where
  "diff_lines oldLines newLines =
     concat (map (\<lambda>i. if Some (oldLines ! i) \<noteq> js_index newLines i
                      then [DiffOld (oldLines ! i), DiffNew (js_index newLines i)] else [])
                 [0 ..< length oldLines])"

fun preview_loop :: "string \<Rightarrow> finding list \<Rightarrow> msg list" where
  "preview_loop newScope [] = []"
| "preview_loop newScope (f # rest) =
     (let newContent = replaceReferences (content f) newScope;
          oldLines = split_lines (content f);
          newLines = split_lines newContent
      in [PreviewFile (file f), PreviewRule] @ diff_lines oldLines newLines @
         (if rest \<noteq> [] then [Blank] else []) @ preview_loop newScope rest)"

subsection \<open>\<open>main\<close>\<close>

text \<open>
  A run ends by \<open>process.exit\<close> with a status, or stays waiting for input that never
  comes. The result of a run is how it ended, what it printed and the file system it
  leaves. An error thrown anywhere is caught at the top level, printed, and the run
  exits with status 1.

  The body of \<open>main\<close> is written in four definitions, the later steps first:
  \<open>apply_and_report\<close> is the call of \<open>applyRenaming\<close> with the final messages,
  \<open>confirm_and_apply\<close> the part from the validation of the scope to the confirmation,
  \<open>resolve_scope\<close> the choice between the \<open>--scope\<close> argument and the prompt, and
  \<open>main\<close> the scan, the two early exits and the rest.
\<close>

datatype ending = Exit nat | Waiting

type_synonym run = "ending \<times> msg list \<times> filesystem"

definition apply_and_report :: "string list \<Rightarrow> finding list \<Rightarrow> string \<Rightarrow> msg list \<Rightarrow> filesystem \<Rightarrow> run" where
  "apply_and_report args findings newScope out fs =
     (case applyRenaming (dryRun args) findings newScope fs of
        (Inl err, fs') \<Rightarrow> (Exit 1, out @ [ErrorMessage (message err)], fs')
      | (Inr updated, fs') \<Rightarrow>
          (Exit 0,
           out @ [Renamed updated, AllChanged newScope, NextSteps, StepInstall, StepBuild, StepLint],
           fs'))"

definition confirm_and_apply ::
  "string list \<Rightarrow> finding list \<Rightarrow> string \<Rightarrow> string list \<Rightarrow> msg list \<Rightarrow> filesystem \<Rightarrow> run" where
  "confirm_and_apply args findings newScope stdin out fs =
     (if \<not> isValidScope newScope then (Exit 1, out @ [InvalidScopeError], fs)
      else if newScope = ''ordinarysh'' then (Exit 0, out @ [AlreadyNamed], fs)
      else
        let out1 = out @ [PreviewHeader newScope] @ preview_loop newScope findings @ [Blank] @
                   [ConfirmNotice newScope (countReferences findings)]
        in case promptConfirmation ''Continue? (y/N): '' stdin of
             (None, left, asked) \<Rightarrow> (Waiting, out1 @ asked, fs)
           | (Some confirmed, left, asked) \<Rightarrow>
               if \<not> confirmed then (Exit 0, out1 @ asked @ [Cancelled], fs)
               else apply_and_report args findings newScope (out1 @ asked) fs)"

text \<open>\<open>if (!newScope) newScope = await promptForScope()\<close>\<close>

definition resolve_scope :: "string list \<Rightarrow> string list \<Rightarrow> string option \<times> string list \<times> msg list" where
  "resolve_scope args stdin =
     (case newScope_arg args of
        Some newScope \<Rightarrow> (Some newScope, stdin, [])
      | None \<Rightarrow> promptForScope stdin)"

definition main :: "env \<Rightarrow> string list \<Rightarrow> string list \<Rightarrow> filesystem \<Rightarrow> run" where
  "main e args stdin fs =
     (case scanFiles e fs of
        Inl err \<Rightarrow> (Exit 1, [Banner, ErrorMessage (message err)], fs)
      | Inr findings \<Rightarrow>
          if length findings = 0 then (Exit 0, [Banner, NoReferencesFound], fs)
          else if dryRun args then
            (Exit 0,
             [Banner, FoundTotal (countReferences findings)] @
             map (\<lambda>f. FileCount (file f) (countFileReferences (content f))) findings @ [Blank],
             fs)
          else
            (case resolve_scope args stdin of
               (None, left, asked) \<Rightarrow> (Waiting, [Banner] @ asked, fs)
             | (Some newScope, left, asked) \<Rightarrow>
                 confirm_and_apply args findings newScope left ([Banner] @ asked) fs))"

subsection \<open>Notions used in the statements\<close>

text \<open>What one candidate file contributes to the findings when its read does not throw.\<close>

definition found_in :: "env \<Rightarrow> filesystem \<Rightarrow> string \<Rightarrow> finding list" where
  "found_in e fs f =
     (case readFileContent fs (path_join e (rootDir e) f) of
        Inr (Some text) \<Rightarrow>
          if text \<noteq> [] \<and> findReferences text \<noteq> []
          then [\<lparr>file = f, fullPath = path_join e (rootDir e) f, content = text,
                 references = findReferences text\<rparr>]
          else []
      | _ \<Rightarrow> [])"

definition read_throws :: "env \<Rightarrow> filesystem \<Rightarrow> string \<Rightarrow> bool" where
  "read_throws e fs f =
     (case readFileSync fs (path_join e (rootDir e) f) of
        Inl err \<Rightarrow> code err \<noteq> ''ENOENT''
      | Inr text \<Rightarrow> False)"

text \<open>
  A run reaches \<open>applyRenaming\<close> when the scan returned findings, the run is not a
  preview, the destination scope is valid and not \<open>ordinarysh\<close>, and the confirmation
  prompt returned true.
\<close>

definition reaches_apply ::
  "env \<Rightarrow> string list \<Rightarrow> string list \<Rightarrow> filesystem \<Rightarrow> finding list \<Rightarrow> string \<Rightarrow> bool" where
  "reaches_apply e args stdin fs findings s =
     (scanFiles e fs = Inr findings \<and> findings \<noteq> [] \<and> \<not> dryRun args \<and>
      isValidScope s \<and> s \<noteq> ''ordinarysh'' \<and>
      (case resolve_scope args stdin of
         (None, left, asked) \<Rightarrow> False
       | (Some s', left, asked) \<Rightarrow>
           s' = s \<and> fst (promptConfirmation ''Continue? (y/N): '' left) = Some True))"

subsection \<open>An example repository\<close>

text \<open>
  Two package manifests under the root \<open>/repo\<close>, one of them naming the same package
  twice; the same files with the first unreadable, and with the second read-only.
\<close>

definition ex_env :: env where
  "ex_env =
     \<lparr>globSync = (\<lambda>p. if p = ''apps/**/package.json'' then [''apps/web/package.json'']
                      else if p = ''packages/**/package.json'' then [''packages/ui/package.json'']
                      else []),
      rootDir = ''/repo'',
      path_join = (\<lambda>a b. a @ ''/'' @ b)\<rparr>"

definition ex_files :: "string \<rightharpoonup> string" where
  "ex_files =
     [''/repo/apps/web/package.json'' \<mapsto> ''@ordinarysh/ui @ordinarysh/ui'',
      ''/repo/packages/ui/package.json'' \<mapsto> ''name: @ordinarysh/ui'']"

definition ex_fs :: filesystem where
  "ex_fs = \<lparr>files = ex_files, read_fails = Map.empty, write_fails = Map.empty\<rparr>"

definition EACCES :: js_error where
  "EACCES = SystemError ''EACCES'' ''EACCES: permission denied''"

definition ex_fs_unreadable :: filesystem where
  "ex_fs_unreadable =
     \<lparr>files = ex_files, read_fails = [''/repo/apps/web/package.json'' \<mapsto> EACCES],
      write_fails = Map.empty\<rparr>"

definition ex_fs_readonly :: filesystem where
  "ex_fs_readonly =
     \<lparr>files = ex_files, read_fails = Map.empty,
      write_fails = [''/repo/packages/ui/package.json'' \<mapsto> EACCES]\<rparr>"

definition ex_findings :: "finding list" where
  "ex_findings =
     [\<lparr>file = ''apps/web/package.json'', fullPath = ''/repo/apps/web/package.json'',
       content = ''@ordinarysh/ui @ordinarysh/ui'', references = [''@ordinarysh/ui'']\<rparr>,
      \<lparr>file = ''packages/ui/package.json'', fullPath = ''/repo/packages/ui/package.json'',
       content = ''name: @ordinarysh/ui'', references = [''@ordinarysh/ui'']\<rparr>]"

section \<open>Properties\<close>

subsection \<open>The scope-name predicate\<close>

lemma rmatch_Cls_iff:
  "(j, u) \<in> set (rmatch (Cls p) (i, t)) \<longleftrightarrow> (\<exists>d. t = d # u \<and> p d \<and> j = Suc i)"
  by (auto split: list.splits)

lemma rmatch_Seq_iff:
  "y \<in> set (rmatch (Seq r1 r2) x) \<longleftrightarrow> (\<exists>m. m \<in> set (rmatch r1 x) \<and> y \<in> set (rmatch r2 m))"
  by (cases x) auto

lemma rmatch_Eol_iff: "(j, u) \<in> set (rmatch Eol (k, s)) \<longleftrightarrow> j = k \<and> u = [] \<and> s = []"
  by auto

lemma rmatch_Opt_iff:
  "(j, u) \<in> set (rmatch (Opt r) (k, s)) \<longleftrightarrow>
   ((j, u) \<in> set (rmatch r (k, s)) \<and> j \<noteq> k) \<or> (j = k \<and> u = s)"
  by auto

lemma rmatch_ClsStar_iff:
  "(j, u) \<in> set (rmatch (ClsStar p) (k, s)) \<longleftrightarrow>
   (\<exists>w. s = w @ u \<and> list_all p w \<and> j = k + length w)"
  by (simp add: cls_star_iff)

lemma nonempty_iff_member: "xs \<noteq> [] \<longleftrightarrow> (\<exists>y. y \<in> set xs)"
  by (cases xs) auto

lemma exec_from_Bol_later: "0 < k \<Longrightarrow> exec_from (Seq Bol r) (k, s) = None"
  by (induction s arbitrary: k) auto

lemma exec_from_Bol_start:
  "exec_from (Seq Bol r) (0, s) = None \<longleftrightarrow> rmatch r (0, s) = []"
  by (cases s) (auto simp: exec_from_Bol_later split: list.splits)

lemma scope_tail_iff:
  "(j, u) \<in> set (rmatch (Seq (ClsStar lower_digit_hyphen) (Cls lower_digit)) (k, s)) \<longleftrightarrow>
   (\<exists>w d. s = w @ d # u \<and> list_all lower_digit_hyphen w \<and> lower_digit d \<and> j = Suc (k + length w))"
proof
  assume "(j, u) \<in> set (rmatch (Seq (ClsStar lower_digit_hyphen) (Cls lower_digit)) (k, s))"
  then obtain i t where m: "(i, t) \<in> set (rmatch (ClsStar lower_digit_hyphen) (k, s))"
    and e: "(j, u) \<in> set (rmatch (Cls lower_digit) (i, t))"
    unfolding rmatch_Seq_iff by auto
  from m obtain w where "s = w @ t" "list_all lower_digit_hyphen w" "i = k + length w"
    unfolding rmatch_ClsStar_iff by blast
  moreover from e obtain d where "t = d # u" "lower_digit d" "j = Suc i"
    unfolding rmatch_Cls_iff by blast
  ultimately show "\<exists>w d. s = w @ d # u \<and> list_all lower_digit_hyphen w \<and> lower_digit d \<and>
      j = Suc (k + length w)"
    by blast
next
  assume "\<exists>w d. s = w @ d # u \<and> list_all lower_digit_hyphen w \<and> lower_digit d \<and>
      j = Suc (k + length w)"
  then obtain w d where h: "s = w @ d # u" "list_all lower_digit_hyphen w" "lower_digit d"
    "j = Suc (k + length w)" by blast
  then have "(k + length w, d # u) \<in> set (rmatch (ClsStar lower_digit_hyphen) (k, s))"
    unfolding rmatch_ClsStar_iff by blast
  moreover have "(j, u) \<in> set (rmatch (Cls lower_digit) (k + length w, d # u))"
    unfolding rmatch_Cls_iff using h by blast
  ultimately show "(j, u) \<in> set (rmatch (Seq (ClsStar lower_digit_hyphen) (Cls lower_digit)) (k, s))"
    unfolding rmatch_Seq_iff by blast
qed

lemma scope_rest_iff:
  "rmatch (Seq (Opt (Seq (ClsStar lower_digit_hyphen) (Cls lower_digit))) Eol) (k, s) \<noteq> [] \<longleftrightarrow>
   s = [] \<or> (\<exists>w d. s = w @ [d] \<and> list_all lower_digit_hyphen w \<and> lower_digit d)"
  (is "?L \<noteq> [] \<longleftrightarrow> ?R")
proof -
  let ?X = "Seq (ClsStar lower_digit_hyphen) (Cls lower_digit)"
  have "?L \<noteq> [] \<longleftrightarrow> (\<exists>y. y \<in> set ?L)"
    by (rule nonempty_iff_member)
  also have "\<dots> \<longleftrightarrow> (\<exists>i. (i, []) \<in> set (rmatch (Opt ?X) (k, s)))"
    unfolding rmatch_Seq_iff
    by (metis rmatch_Eol_iff surj_pair)
  also have "\<dots> \<longleftrightarrow> s = [] \<or> (\<exists>i. i \<noteq> k \<and> (i, []) \<in> set (rmatch ?X (k, s)))"
    unfolding rmatch_Opt_iff by blast
  also have "\<dots> \<longleftrightarrow> ?R"
    unfolding scope_tail_iff by auto
  finally show ?thesis .
qed

lemma lower_digit_iff: "lower_digit c \<longleftrightarrow> lower_digit_hyphen c \<and> c \<noteq> CHR ''-''"
  by (auto simp: lower_digit_def lower_digit_hyphen_def in_range_def)

lemma isValidScope_iff:
  "isValidScope s \<longleftrightarrow>
   (\<exists>c cs. s = c # cs \<and> lower_digit c \<and>
      (cs = [] \<or> (\<exists>w d. cs = w @ [d] \<and> list_all lower_digit_hyphen w \<and> lower_digit d)))"
proof (cases s)
  case Nil
  then show ?thesis
    by (simp add: isValidScope_def regex_test_def scope_regex_def)
next
  case (Cons c cs)
  have "isValidScope s \<longleftrightarrow> rmatch (Seq (Cls lower_digit)
       (Seq (Opt (Seq (ClsStar lower_digit_hyphen) (Cls lower_digit))) Eol)) (0, s) \<noteq> []"
    unfolding isValidScope_def regex_test_def scope_regex_def exec_from_Bol_start ..
  also have "\<dots> \<longleftrightarrow> lower_digit c \<and> rmatch 
       (Seq (Opt (Seq (ClsStar lower_digit_hyphen) (Cls lower_digit))) Eol) (Suc 0, cs) \<noteq> []"
    using Cons by (simp del: rmatch.simps(7,8) add: rmatch.simps(8) [of "Cls lower_digit"])
  finally show ?thesis
    unfolding scope_rest_iff using Cons by simp
qed

lemma isValidScope_spec: "isValidScope s \<longleftrightarrow> scope_name_spec s"
proof (cases s)
  case Nil
  then show ?thesis by (simp add: isValidScope_iff scope_name_spec_def)
next
  case (Cons c cs)
  show ?thesis
  proof (cases cs rule: rev_cases)
    case Nil
    with Cons show ?thesis
      by (auto simp: isValidScope_iff scope_name_spec_def lower_digit_iff)
  next
    case (snoc w d)
    with Cons show ?thesis
      by (auto simp: isValidScope_iff scope_name_spec_def lower_digit_iff)
  qed
qed

lemma upper_not_lower_digit_hyphen: "upper_case c \<Longrightarrow> \<not> lower_digit_hyphen c"
  by (auto simp: upper_case_def lower_digit_hyphen_def in_range_def)

text \<open>
  C6. \<open>isValidScope\<close> accepts exactly the strings of the scope-name predicate (lowercase
  letters, digits and hyphens, at least one character, no hyphen first or last). In
  particular it rejects the empty string, every string with an upper-case letter, and
  every string that begins or ends with a hyphen.
\<close>

theorem isValidScope_characterisation:
  "(isValidScope s \<longleftrightarrow> scope_name_spec s) \<and> \<not> isValidScope [] \<and>
   (list_ex upper_case s \<longrightarrow> \<not> isValidScope s) \<and>
   (prefix ''-'' s \<or> suffix ''-'' s \<longrightarrow> \<not> isValidScope s)"
proof (intro conjI impI)
  show "isValidScope s \<longleftrightarrow> scope_name_spec s" by (rule isValidScope_spec)
  show "\<not> isValidScope []" by (simp add: isValidScope_spec scope_name_spec_def)
next
  assume "list_ex upper_case s"
  then obtain c where "c \<in> set s" "upper_case c" by (auto simp: list_ex_iff)
  then have "\<not> list_all lower_digit_hyphen s"
    using upper_not_lower_digit_hyphen by (auto simp: list_all_iff)
  then show "\<not> isValidScope s" by (simp add: isValidScope_spec scope_name_spec_def)
next
  assume "prefix ''-'' s \<or> suffix ''-'' s"
  then have "s \<noteq> [] \<longrightarrow> hd s = CHR ''-'' \<or> last s = CHR ''-''"
    by (auto simp: prefix_def suffix_def)
  then show "\<not> isValidScope s" by (auto simp: isValidScope_spec scope_name_spec_def)
qed

theorem isValidScope_characterisation_witness:
  "isValidScope ''my-org'' \<and> scope_name_spec ''my-org'' \<and>
   list_ex upper_case ''My-org'' \<and> \<not> isValidScope ''My-org'' \<and>
   prefix ''-'' ''-org'' \<and> \<not> isValidScope ''-org'' \<and>
   suffix ''-'' ''org-'' \<and> \<not> isValidScope ''org-''"
proof -
  have a: "scope_name_spec ''my-org''"
    by (simp add: scope_name_spec_def lower_digit_hyphen_def in_range_def)
  have b: "list_ex upper_case ''My-org''"
    by (simp add: upper_case_def in_range_def)
  have c: "prefix ''-'' ''-org''" by simp
  have d: "suffix ''-'' ''org-''" by (simp add: suffix_def)
  show ?thesis
    using a b c d isValidScope_characterisation [of "''my-org''"]
      isValidScope_characterisation [of "''My-org''"]
      isValidScope_characterisation [of "''-org''"]
      isValidScope_characterisation [of "''org-''"]
    by blast
qed

subsection \<open>Evaluating the example runs\<close>

lemmas matcher_defs = match_from.simps js_match_def reference_regex_def word_hyphen_def word_char_def in_range_def
  new_Set_def set_add_def

lemma ex_getFilesToScan:
  "getFilesToScan ex_env = [''apps/web/package.json'', ''packages/ui/package.json'']"
  by (simp add: getFilesToScan_def globPatterns_def ex_env_def set_add_def)

lemma ex_findReferences_twice:
  "findReferences ''@ordinarysh/ui @ordinarysh/ui'' = [''@ordinarysh/ui'']"
  by (simp add: findReferences_def matcher_defs)

lemma ex_countFileReferences_twice:
  "countFileReferences ''@ordinarysh/ui @ordinarysh/ui'' = 2"
  by (simp add: countFileReferences_def matcher_defs)

lemma ex_findReferences_name:
  "findReferences ''name: @ordinarysh/ui'' = [''@ordinarysh/ui'']"
  by (simp add: findReferences_def matcher_defs)

lemma ex_countFileReferences_name:
  "countFileReferences ''name: @ordinarysh/ui'' = 1"
  by (simp add: countFileReferences_def matcher_defs)

lemma ex_read_web:
  "readFileContent ex_fs ''/repo/apps/web/package.json'' = Inr (Some ''@ordinarysh/ui @ordinarysh/ui'')"
  by (simp add: readFileContent_def readFileSync_def ex_fs_def ex_files_def)

lemma ex_read_ui:
  "readFileContent ex_fs ''/repo/packages/ui/package.json'' = Inr (Some ''name: @ordinarysh/ui'')"
  by (simp add: readFileContent_def readFileSync_def ex_fs_def ex_files_def)

lemma ex_scanFiles: "scanFiles ex_env ex_fs = Inr ex_findings"
  unfolding scanFiles_def ex_getFilesToScan
  by (simp add: ex_env_def ex_read_web ex_read_ui ex_findReferences_twice ex_findReferences_name
      ex_findings_def Let_def)

lemma ex_dry_run:
  "main ex_env [''--check''] [] ex_fs =
     (Exit 0,
      [Banner, FoundTotal 2, FileCount ''apps/web/package.json'' 2,
       FileCount ''packages/ui/package.json'' 1, Blank],
      ex_fs)"
  unfolding main_def ex_scanFiles
  by (simp add: ex_findings_def dryRun_def countReferences_def ex_countFileReferences_twice
      ex_countFileReferences_name)

lemmas prompt_defs = trim_def white_space_def toLowerCase_def lower_char_def char_of_def bit_Suc_0_iff

lemma ex_valid_myorg: "isValidScope ''myorg''"
  by (simp add: isValidScope_spec scope_name_spec_def lower_digit_hyphen_def in_range_def)

subsection \<open>Counting references\<close>

lemma set_add_set: "set (set_add xs x) = insert x (set xs)"
  by (auto simp: set_add_def)

lemma set_add_distinct: "distinct xs \<Longrightarrow> distinct (set_add xs x)"
  by (auto simp: set_add_def)

lemma foldl_set_add:
  "distinct acc \<Longrightarrow>
   distinct (foldl set_add acc xs) \<and> set (foldl set_add acc xs) = set acc \<union> set xs"
proof (induction xs arbitrary: acc)
  case Nil
  then show ?case by simp
next
  case (Cons x xs)
  from Cons.IH [OF set_add_distinct [OF Cons.prems]] show ?case
    by (simp add: set_add_set)
qed

lemma length_new_Set: "length (new_Set xs) = card (set xs)"
proof -
  have "distinct (new_Set xs)" "set (new_Set xs) = set xs"
    using foldl_set_add [of "[]" xs] by (simp_all add: new_Set_def)
  then show ?thesis by (metis distinct_card)
qed

lemma length_new_Set_less: "\<not> distinct xs \<Longrightarrow> length (new_Set xs) < length xs"
  unfolding length_new_Set
  using card_length [of xs] card_distinct [of xs] by linarith


text \<open>
  C10. For a content in which the same reference text is matched more than once,
  \<open>countFileReferences\<close> is strictly greater than the length of \<open>findReferences\<close>; such
  contents exist, and there is a preview run whose per-file count exceeds the total it
  reports.
\<close>

theorem file_count_exceeds_references:
  "(\<not> distinct (match_from reference_regex (0, c)) \<longrightarrow>
      length (findReferences c) < countFileReferences c) \<and>
   (\<exists>c'. length (findReferences c') < countFileReferences c') \<and>
   (\<exists>e fs f total n.
      main e [''--check''] [] fs = (Exit 0, [Banner, FoundTotal total, FileCount f n, Blank], fs) \<and>
      total < n)"
proof (intro conjI impI)
  assume dup: "\<not> distinct (match_from reference_regex (0, c))"
  then have ne: "c \<noteq> []" by (auto simp: reference_regex_def match_from.simps)
  have ms: "(case js_match reference_regex c of None \<Rightarrow> [] | Some ms \<Rightarrow> ms) =
      match_from reference_regex (0, c)"
    by (simp add: js_match_def split: list.splits)
  show "length (findReferences c) < countFileReferences c"
    using ne dup by (simp add: findReferences_def countFileReferences_def ms length_new_Set_less)
next
  have "length (findReferences ''@ordinarysh/ui @ordinarysh/ui'') <
      countFileReferences ''@ordinarysh/ui @ordinarysh/ui''"
    by (simp add: ex_findReferences_twice ex_countFileReferences_twice)
  then show "\<exists>c'. length (findReferences c') < countFileReferences c'" ..
next
  let ?e = "ex_env\<lparr>globSync := (\<lambda>p. if p = ''apps/**/package.json'' then [''apps/web/package.json''] else [])\<rparr>"
  have files: "getFilesToScan ?e = [''apps/web/package.json'']"
    by (simp add: getFilesToScan_def globPatterns_def ex_env_def set_add_def)
  have scan: "scanFiles ?e ex_fs = Inr [hd ex_findings]"
    unfolding scanFiles_def files
    by (simp add: ex_env_def ex_read_web ex_findReferences_twice ex_findings_def Let_def)
  have "main ?e [''--check''] [] ex_fs =
      (Exit 0, [Banner, FoundTotal 1, FileCount ''apps/web/package.json'' 2, Blank], ex_fs)"
    unfolding main_def scan
    by (simp add: ex_findings_def dryRun_def countReferences_def ex_countFileReferences_twice)
  then show "\<exists>e fs f total n.
      main e [''--check''] [] fs = (Exit 0, [Banner, FoundTotal total, FileCount f n, Blank], fs) \<and>
      total < n"
    by (metis one_less_numeral_iff semiring_norm(76))
qed

theorem file_count_exceeds_references_witness:
  "\<not> distinct (match_from reference_regex (0, ''@ordinarysh/ui @ordinarysh/ui'')) \<and>
   length (findReferences ''@ordinarysh/ui @ordinarysh/ui'') <
     countFileReferences ''@ordinarysh/ui @ordinarysh/ui''"
proof -
  have d: "\<not> distinct (match_from reference_regex (0, ''@ordinarysh/ui @ordinarysh/ui''))"
    by (simp add: matcher_defs)
  with file_count_exceeds_references [of "''@ordinarysh/ui @ordinarysh/ui''"]
  show ?thesis by blast
qed

subsection \<open>Scanning\<close>

lemma readFileContent_no_throw:
  "\<not> read_throws e fs f \<Longrightarrow> \<exists>r. readFileContent fs (path_join e (rootDir e) f) = Inr r"
  by (auto simp: read_throws_def readFileContent_def split: sum.splits)

lemma scan_loop_step:
  "\<not> read_throws e fs f \<Longrightarrow>
   scan_loop e fs (f # rest) acc = scan_loop e fs rest (acc @ found_in e fs f)"
  by (auto simp: found_in_def Let_def dest!: readFileContent_no_throw split: option.splits)

lemma scan_loop_all:
  "\<forall>f\<in>set fl. \<not> read_throws e fs f \<Longrightarrow>
   scan_loop e fs fl acc = Inr (acc @ concat (map (found_in e fs) fl))"
proof (induction fl arbitrary: acc)
  case Nil
  then show ?case by simp
next
  case (Cons f fl)
  then show ?case by (simp add: scan_loop_step del: scan_loop.simps)
qed

lemma scan_loop_throws:
  assumes "\<forall>g\<in>set pre. \<not> read_throws e fs g"
    and "readFileSync fs (path_join e (rootDir e) f) = Inl err" and "code err \<noteq> ''ENOENT''"
  shows "scan_loop e fs (pre @ f # rest) acc = Inl err"
  using assms(1)
proof (induction pre arbitrary: acc)
  case Nil
  from assms(2,3) show ?case by (simp add: readFileContent_def)
next
  case (Cons g pre)
  then show ?case by (simp add: scan_loop_step del: scan_loop.simps)
qed

text \<open>A scan that returns findings threw at no file.\<close>

lemma scan_loop_Inr_no_throw:
  "scan_loop e fs fl acc = Inr res \<Longrightarrow> \<forall>f\<in>set fl. \<not> read_throws e fs f"
proof (induction fl arbitrary: acc)
  case Nil
  then show ?case by simp
next
  case (Cons f fl)
  show ?case
  proof (cases "read_throws e fs f")
    case True
    then obtain err where "readFileSync fs (path_join e (rootDir e) f) = Inl err"
      "code err \<noteq> ''ENOENT''"
      by (auto simp: read_throws_def split: sum.splits)
    from scan_loop_throws [of "[]" e fs f err fl acc, OF _ this] Cons.prems
    show ?thesis by simp
  next
    case False
    with Cons.prems have "scan_loop e fs fl (acc @ found_in e fs f) = Inr res"
      by (simp add: scan_loop_step del: scan_loop.simps)
    from Cons.IH [OF this] False show ?thesis by simp
  qed
qed

text \<open>
  C2 (as amended). A candidate file whose read fails with code \<open>ENOENT\<close> is skipped and
  the scan goes on with the remaining files: when no read fails with another code, the
  scan returns what the readable files contribute. A read that fails with any other
  code stops the scan with that error, wherever the file stands in the list, and the
  run then reports the error and exits with status 1, leaving the file system as it was.
\<close>

theorem scan_skips_only_missing_files:
  "(readFileSync fs (path_join e (rootDir e) f) = Inl err \<and> code err = ''ENOENT'' \<longrightarrow>
      scan_loop e fs (f # rest) acc = scan_loop e fs rest acc) \<and>
   (list_all (\<lambda>g. \<not> read_throws e fs g) fl \<longrightarrow>
      scan_loop e fs fl acc = Inr (acc @ concat (map (found_in e fs) fl))) \<and>
   (list_all (\<lambda>g. \<not> read_throws e fs g) pre \<and>
    readFileSync fs (path_join e (rootDir e) f) = Inl err \<and> code err \<noteq> ''ENOENT'' \<longrightarrow>
      scan_loop e fs (pre @ f # rest) acc = Inl err \<and>
      (getFilesToScan e = pre @ f # rest \<longrightarrow>
         main e args stdin fs = (Exit 1, [Banner, ErrorMessage (message err)], fs)))"
proof (intro conjI impI)
  assume "readFileSync fs (path_join e (rootDir e) f) = Inl err \<and> code err = ''ENOENT''"
  then show "scan_loop e fs (f # rest) acc = scan_loop e fs rest acc"
    by (simp add: readFileContent_def)
next
  assume "list_all (\<lambda>g. \<not> read_throws e fs g) fl"
  then show "scan_loop e fs fl acc = Inr (acc @ concat (map (found_in e fs) fl))"
    by (simp add: scan_loop_all list_all_iff)
next
  assume h: "list_all (\<lambda>g. \<not> read_throws e fs g) pre \<and>
    readFileSync fs (path_join e (rootDir e) f) = Inl err \<and> code err \<noteq> ''ENOENT''"
  then show t: "scan_loop e fs (pre @ f # rest) acc = Inl err" for acc
    by (simp add: scan_loop_throws list_all_iff)
  assume "getFilesToScan e = pre @ f # rest"
  with t [of "[]"] show "main e args stdin fs = (Exit 1, [Banner, ErrorMessage (message err)], fs)"
    by (simp add: main_def scanFiles_def)
qed

theorem scan_skips_only_missing_files_witness:
  "readFileSync ex_fs (path_join ex_env (rootDir ex_env) ''apps/gone/package.json'') =
     Inl (SystemError ''ENOENT'' ''ENOENT: no such file or directory'') \<and>
   scan_loop ex_env ex_fs [''apps/gone/package.json'', ''packages/ui/package.json''] [] =
     scan_loop ex_env ex_fs [''packages/ui/package.json''] [] \<and>
   scan_loop ex_env ex_fs [''apps/gone/package.json'', ''packages/ui/package.json''] [] =
     Inr [last ex_findings] \<and>
   readFileSync ex_fs_unreadable (path_join ex_env (rootDir ex_env) ''apps/web/package.json'') =
     Inl EACCES \<and> code EACCES \<noteq> ''ENOENT'' \<and>
   scan_loop ex_env ex_fs_unreadable
     [''apps/gone/package.json'', ''apps/web/package.json'', ''packages/ui/package.json''] [] =
     Inl EACCES \<and>
   main ex_env [] [] ex_fs_unreadable =
     (Exit 1, [Banner, ErrorMessage ''EACCES: permission denied''], ex_fs_unreadable)"
proof -
  let ?gone = "''apps/gone/package.json''" and ?web = "''apps/web/package.json''"
    and ?ui = "''packages/ui/package.json''"
  have a: "readFileSync ex_fs (path_join ex_env (rootDir ex_env) ?gone) =
      Inl (SystemError ''ENOENT'' ''ENOENT: no such file or directory'')"
    by (simp add: readFileSync_def ex_fs_def ex_files_def ex_env_def)
  have b: "readFileSync ex_fs_unreadable (path_join ex_env (rootDir ex_env) ?web) = Inl EACCES"
    by (simp add: readFileSync_def ex_fs_unreadable_def ex_env_def)
  have c: "code EACCES \<noteq> ''ENOENT''" "message EACCES = ''EACCES: permission denied''"
    by (simp_all add: EACCES_def)
  have d: "list_all (\<lambda>g. \<not> read_throws ex_env ex_fs g) [?gone, ?ui]"
    by (simp add: read_throws_def readFileSync_def ex_fs_def ex_files_def ex_env_def)
  have e: "list_all (\<lambda>g. \<not> read_throws ex_env ex_fs_unreadable g) [?gone]"
    "list_all (\<lambda>g. \<not> read_throws ex_env ex_fs_unreadable g) []"
    by (simp_all add: read_throws_def readFileSync_def ex_fs_unreadable_def ex_files_def ex_env_def)
  have f: "found_in ex_env ex_fs ?gone = []" "found_in ex_env ex_fs ?ui = [last ex_findings]"
    using ex_read_ui
    by (simp_all add: found_in_def readFileContent_def readFileSync_def ex_fs_def ex_files_def
        ex_env_def ex_findReferences_name ex_findings_def)
  note t = scan_skips_only_missing_files
  note t1 = t [of ex_fs ex_env ?gone "SystemError ''ENOENT'' ''ENOENT: no such file or directory''"
      "[?ui]" "[]" "[?gone, ?ui]"]
  from t1 a have 1: "scan_loop ex_env ex_fs [?gone, ?ui] [] = scan_loop ex_env ex_fs [?ui] []"
    by (simp del: scan_loop.simps)
  from t1 d have "scan_loop ex_env ex_fs [?gone, ?ui] [] =
      Inr ([] @ concat (map (found_in ex_env ex_fs) [?gone, ?ui]))"
    by blast
  then have 4: "scan_loop ex_env ex_fs [?gone, ?ui] [] = Inr [last ex_findings]"
    by (simp add: f del: scan_loop.simps)
  from t [of ex_fs_unreadable ex_env ?web EACCES "[?ui]" "[]" "[]" "[?gone]"] b c e
  have 2: "scan_loop ex_env ex_fs_unreadable [?gone, ?web, ?ui] [] = Inl EACCES"
    by (simp del: scan_loop.simps)
  from t [of ex_fs_unreadable ex_env ?web EACCES "[?ui]" "[]" "[]" "[]" "[]" "[]"] b c e
    ex_getFilesToScan
  have 3: "main ex_env [] [] ex_fs_unreadable =
      (Exit 1, [Banner, ErrorMessage ''EACCES: permission denied''], ex_fs_unreadable)"
    by (simp del: scan_loop.simps)
  from a b c(1) 1 2 3 4 show ?thesis by blast
qed

text \<open>
  The claim as stated fails: a file that cannot be read for lack of permission is not
  skipped; the scan of the two files ends with the error instead of the findings of the
  remaining file.
\<close>

theorem scan_unreadable_counterexample:
  "readFileSync ex_fs_unreadable (path_join ex_env (rootDir ex_env) ''apps/web/package.json'') =
     Inl EACCES \<and>
   scan_loop ex_env ex_fs_unreadable [''packages/ui/package.json''] [] = Inr [last ex_findings] \<and>
   scan_loop ex_env ex_fs_unreadable [''apps/web/package.json'', ''packages/ui/package.json''] [] \<noteq>
     scan_loop ex_env ex_fs_unreadable [''packages/ui/package.json''] [] \<and>
   scanFiles ex_env ex_fs_unreadable = Inl EACCES"
proof -
  have b: "readFileSync ex_fs_unreadable
      (path_join ex_env (rootDir ex_env) ''apps/web/package.json'') = Inl EACCES"
    by (simp add: readFileSync_def ex_fs_unreadable_def ex_env_def)
  have c: "code EACCES \<noteq> ''ENOENT''" by (simp add: EACCES_def)
  have r: "readFileContent ex_fs_unreadable ''/repo/packages/ui/package.json'' =
      Inr (Some ''name: @ordinarysh/ui'')"
    by (simp add: readFileContent_def readFileSync_def ex_fs_unreadable_def ex_files_def)
  have one: "scan_loop ex_env ex_fs_unreadable [''packages/ui/package.json''] [] =
      Inr [last ex_findings]"
    using r by (simp add: ex_env_def ex_findReferences_name ex_findings_def Let_def)
  have two: "scan_loop ex_env ex_fs_unreadable
      [''apps/web/package.json'', ''packages/ui/package.json''] [] = Inl EACCES"
    using b c by (simp add: readFileContent_def)
  have d: "scanFiles ex_env ex_fs_unreadable = Inl EACCES"
    unfolding scanFiles_def ex_getFilesToScan by (rule two)
  show ?thesis using b one two d by simp
qed

subsection \<open>Preview mode\<close>

text \<open>
  C1. With \<open>--check\<close> or \<open>--dry-run\<close> among the arguments, a run leaves the file system
  exactly as it found it and \<open>writeFileContent\<close> writes nothing; whatever findings the
  scan returns, the run exits with status 0, and when there are findings it prints the
  total and one count for each file.
\<close>

theorem preview_never_writes:
  assumes "''--check'' \<in> set args \<or> ''--dry-run'' \<in> set args"
  shows "snd (snd (main e args stdin fs)) = fs \<and>
         writeFileContent (dryRun args) fs p text = Inr fs \<and>
         (scanFiles e fs = Inr findings \<longrightarrow>
            fst (main e args stdin fs) = Exit 0 \<and>
            (findings \<noteq> [] \<longrightarrow>
               fst (snd (main e args stdin fs)) =
                 [Banner, FoundTotal (countReferences findings)] @
                 map (\<lambda>f. FileCount (file f) (countFileReferences (content f))) findings @
                 [Blank]))"
proof -
  from assms have dry: "dryRun args" by (auto simp: dryRun_def)
  show ?thesis
    using dry by (cases "scanFiles e fs") (auto simp: main_def writeFileContent_def)
qed

theorem preview_never_writes_witness:
  "''--check'' \<in> set [''--check''] \<and> scanFiles ex_env ex_fs = Inr ex_findings \<and>
   ex_findings \<noteq> [] \<and>
   main ex_env [''--check''] [] ex_fs =
     (Exit 0,
      [Banner, FoundTotal 2, FileCount ''apps/web/package.json'' 2,
       FileCount ''packages/ui/package.json'' 1, Blank],
      ex_fs)"
proof -
  have a: "''--check'' \<in> set [''--check''] \<or> ''--dry-run'' \<in> set [''--check'']" by simp
  have n: "ex_findings \<noteq> []" by (simp add: ex_findings_def)
  have c: "[Banner, FoundTotal (countReferences ex_findings)] @
      map (\<lambda>f. FileCount (file f) (countFileReferences (content f))) ex_findings @ [Blank] =
      [Banner, FoundTotal 2, FileCount ''apps/web/package.json'' 2,
       FileCount ''packages/ui/package.json'' 1, Blank]"
    by (simp add: ex_findings_def countReferences_def ex_countFileReferences_twice
        ex_countFileReferences_name)
  from preview_never_writes [OF a, of ex_env "[]" ex_fs "[]" "[]" ex_findings] ex_scanFiles n c
  show ?thesis by (cases "main ex_env [''--check''] [] ex_fs") simp
qed

subsection \<open>Applying the renaming\<close>

lemma main_reaches_apply:
  assumes "reaches_apply e args stdin fs findings s"
  shows "\<exists>out. main e args stdin fs = apply_and_report args findings s out fs"
proof -
  from assms obtain left asked where r: "resolve_scope args stdin = (Some s, left, asked)"
    and c: "fst (promptConfirmation ''Continue? (y/N): '' left) = Some True"
    by (auto simp: reaches_apply_def split: prod.splits option.splits)
  from c obtain left' asked' where
    p: "promptConfirmation ''Continue? (y/N): '' left = (Some True, left', asked')"
    by (cases "promptConfirmation ''Continue? (y/N): '' left") auto
  from assms have "main e args stdin fs =
      confirm_and_apply args findings s left ([Banner] @ asked) fs"
    by (simp add: reaches_apply_def main_def r)
  also from assms have "\<dots> = apply_and_report args findings s
      ((([Banner] @ asked) @ [PreviewHeader s] @ preview_loop s findings @ [Blank] @
        [ConfirmNotice s (countReferences findings)]) @ asked') fs"
    by (simp add: reaches_apply_def confirm_and_apply_def p)
  finally show ?thesis by blast
qed

lemma apply_loop_ok:
  "(\<forall>f\<in>set fl. write_fails fs (fullPath f) = None) \<Longrightarrow>
   apply_loop False s fl n fs =
     (Inr (n + length fl),
      fs\<lparr>files := fold (\<lambda>f m. m(fullPath f \<mapsto> replaceReferences (content f) s)) fl (files fs)\<rparr>)"
proof (induction fl arbitrary: n fs)
  case Nil
  then show ?case by simp
next
  case (Cons f fl)
  let ?fs = "fs\<lparr>files := (files fs)(fullPath f \<mapsto> replaceReferences (content f) s)\<rparr>"
  from Cons.prems have w: "writeFileContent False fs (fullPath f)
      (replaceReferences (content f) s) = Inr ?fs"
    by (simp add: writeFileContent_def writeFileSync_def)
  from Cons.prems have "\<forall>g\<in>set fl. write_fails ?fs (fullPath g) = None" by simp
  from Cons.IH [OF this, of "Suc n"] w show ?case by simp
qed

lemma apply_loop_fail:
  "(\<forall>g\<in>set pre. write_fails fs (fullPath g) = None) \<Longrightarrow>
   write_fails fs (fullPath f) = Some err \<Longrightarrow>
   apply_loop False s (pre @ f # rest) n fs = (Inl err, snd (apply_loop False s pre n fs))"
proof (induction pre arbitrary: n fs)
  case Nil
  then show ?case by (simp add: writeFileContent_def writeFileSync_def)
next
  case (Cons g pre)
  let ?fs = "fs\<lparr>files := (files fs)(fullPath g \<mapsto> replaceReferences (content g) s)\<rparr>"
  from Cons.prems have w: "writeFileContent False fs (fullPath g)
      (replaceReferences (content g) s) = Inr ?fs"
    by (simp add: writeFileContent_def writeFileSync_def)
  from Cons.prems have "\<forall>h\<in>set pre. write_fails ?fs (fullPath h) = None"
    and "write_fails ?fs (fullPath f) = Some err" by simp_all
  from Cons.IH [OF this, of "Suc n"] w show ?case by simp
qed

lemma fold_writes_other:
  "p \<notin> fullPath ` set fl \<Longrightarrow>
   fold (\<lambda>f m. m(fullPath f \<mapsto> replaceReferences (content f) s)) fl m p = m p"
  by (induction fl arbitrary: m) auto

lemma fold_writes_at:
  "distinct (map fullPath fl) \<Longrightarrow> f \<in> set fl \<Longrightarrow>
   fold (\<lambda>f m. m(fullPath f \<mapsto> replaceReferences (content f) s)) fl m (fullPath f) =
     Some (replaceReferences (content f) s)"
proof (induction fl arbitrary: m)
  case Nil
  then show ?case by simp
next
  case (Cons g fl)
  show ?case
  proof (cases "f = g")
    case True
    with Cons.prems have "fullPath g \<notin> fullPath ` set fl" by simp
    from fold_writes_other [OF this, of s "m(fullPath g \<mapsto> replaceReferences (content g) s)"]
    show ?thesis unfolding True by (simp add: fun_upd_same del: fun_upd_apply)
  next
    case False
    with Cons show ?thesis by simp
  qed
qed

lemma found_in_member:
  assumes "g \<in> set (found_in e fs f)"
  shows "fullPath g = path_join e (rootDir e) f"
    and "readFileContent fs (fullPath g) = Inr (Some (content g))"
    and "content g \<noteq> []" and "findReferences (content g) \<noteq> []"
  using assms by (auto simp: found_in_def split: sum.splits option.splits if_splits)

lemma readFileContent_Some:
  "readFileContent fs p = Inr (Some text) \<longleftrightarrow> read_fails fs p = None \<and> files fs p = Some text"
  by (auto simp: readFileContent_def readFileSync_def split: option.splits)

lemma fold_writes_same_content:
  "\<forall>g\<in>set fl. fullPath g = p \<longrightarrow> content g = text \<Longrightarrow>
   fold (\<lambda>f m. m(fullPath f \<mapsto> replaceReferences (content f) s)) fl m p =
     (if p \<in> fullPath ` set fl then Some (replaceReferences text s) else m p)"
proof (induction fl arbitrary: m)
  case Nil
  then show ?case by simp
next
  case (Cons g fl)
  from Cons.prems have "\<forall>h\<in>set fl. fullPath h = p \<longrightarrow> content h = text" by simp
  from Cons.IH [OF this, of "m(fullPath g \<mapsto> replaceReferences (content g) s)"] Cons.prems
  show ?case by auto
qed

lemma apply_loop_Inr:
  "apply_loop False s fl n fs = (Inr k, fs') \<Longrightarrow> \<forall>f\<in>set fl. write_fails fs (fullPath f) = None"
proof (induction fl arbitrary: n fs)
  case Nil
  then show ?case by simp
next
  case (Cons f fl)
  show ?case
  proof (cases "write_fails fs (fullPath f)")
    case (Some err)
    with Cons.prems show ?thesis by (simp add: writeFileContent_def writeFileSync_def)
  next
    case None
    let ?fs = "fs\<lparr>files := (files fs)(fullPath f \<mapsto> replaceReferences (content f) s)\<rparr>"
    from None Cons.prems have "apply_loop False s fl (Suc n) ?fs = (Inr k, fs')"
      by (simp add: writeFileContent_def writeFileSync_def)
    from Cons.IH [OF this] None show ?thesis by simp
  qed
qed

text \<open>
  Every finding of a scan holds the text read at its path, so findings with the same
  path have the same content.
\<close>

lemma scan_findings_read:
  assumes "scanFiles e fs = Inr findings" and "g \<in> set findings"
  shows "readFileContent fs (fullPath g) = Inr (Some (content g))"
proof -
  from assms(1) have "\<forall>f\<in>set (getFilesToScan e). \<not> read_throws e fs f"
    unfolding scanFiles_def by (rule scan_loop_Inr_no_throw)
  with assms(1) have "findings = concat (map (found_in e fs) (getFilesToScan e))"
    by (simp add: scanFiles_def scan_loop_all)
  with assms(2) obtain f where "g \<in> set (found_in e fs f)" by auto
  then show ?thesis by (rule found_in_member(2))
qed

lemma scan_findings_same_content:
  assumes "scanFiles e fs = Inr findings" and "h \<in> set findings" and "g \<in> set findings"
    and "fullPath h = fullPath g"
  shows "content h = content g"
  using scan_findings_read [OF assms(1,2)] scan_findings_read [OF assms(1,3)] assms(4)
  by simp

lemma fold_writes_scanned:
  assumes "scanFiles e fs = Inr findings" and "set fl \<subseteq> set findings" and "g \<in> set fl"
  shows "fold (\<lambda>f m. m(fullPath f \<mapsto> replaceReferences (content f) s)) fl m (fullPath g) =
     Some (replaceReferences (content g) s)"
proof -
  have "\<forall>h\<in>set fl. fullPath h = fullPath g \<longrightarrow> content h = content g"
    using scan_findings_same_content [OF assms(1)] assms(2,3) by blast
  from fold_writes_same_content [OF this, of s m] assms(3) show ?thesis by auto
qed

lemma fold_writes_each:
  assumes "distinct (map fullPath fl) \<or> (scanFiles e fs = Inr findings \<and> set fl \<subseteq> set findings)"
    and "g \<in> set fl"
  shows "fold (\<lambda>f m. m(fullPath f \<mapsto> replaceReferences (content f) s)) fl m (fullPath g) =
     Some (replaceReferences (content g) s)"
  using assms fold_writes_at [of fl g s m] fold_writes_scanned [of e fs findings fl g s m]
  by blast

text \<open>
  C8. Outside preview mode and with no failing write, \<open>applyRenaming\<close> returns the
  number of findings and leaves other files untouched; at each finding's absolute path
  it leaves that finding's rewritten content (the findings being those of a scan, or
  having distinct paths), and the run then exits with status 0. When the write of a
  finding fails, the error leaves \<open>applyRenaming\<close>, the file system is the one reached
  after the writes for the findings before it (they keep their new content), and the run
  prints the error's message and exits with status 1.
\<close>

theorem applyRenaming_writes_or_fails:
  "((\<forall>f\<in>set findings. write_fails fs (fullPath f) = None) \<longrightarrow>
      (\<exists>fs'. applyRenaming False findings s fs = (Inr (length findings), fs') \<and>
         (distinct (map fullPath findings) \<or> scanFiles e fs = Inr findings \<longrightarrow>
            (\<forall>f\<in>set findings. files fs' (fullPath f) = Some (replaceReferences (content f) s))) \<and>
         (\<forall>p. p \<notin> fullPath ` set findings \<longrightarrow> files fs' p = files fs p) \<and>
         (reaches_apply e args stdin fs findings s \<longrightarrow>
            fst (main e args stdin fs) = Exit 0 \<and> snd (snd (main e args stdin fs)) = fs' \<and>
            Renamed (length findings) \<in> set (fst (snd (main e args stdin fs)))))) \<and>
   (findings = pre @ f # rest \<and> (\<forall>g\<in>set pre. write_fails fs (fullPath g) = None) \<and>
    write_fails fs (fullPath f) = Some err \<longrightarrow>
      (\<exists>fs'. applyRenaming False pre s fs = (Inr (length pre), fs') \<and>
         applyRenaming False findings s fs = (Inl err, fs') \<and>
         (distinct (map fullPath pre) \<or> scanFiles e fs = Inr findings \<longrightarrow>
            (\<forall>g\<in>set pre. files fs' (fullPath g) = Some (replaceReferences (content g) s))) \<and>
         (reaches_apply e args stdin fs findings s \<longrightarrow>
            fst (main e args stdin fs) = Exit 1 \<and> snd (snd (main e args stdin fs)) = fs' \<and>
            last (fst (snd (main e args stdin fs))) = ErrorMessage (message err))))"
proof (intro conjI impI)
  assume h: "\<forall>f\<in>set findings. write_fails fs (fullPath f) = None"
  let ?fs = "fs\<lparr>files := fold (\<lambda>f m. m(fullPath f \<mapsto> replaceReferences (content f) s))
      findings (files fs)\<rparr>"
  have a: "applyRenaming False findings s fs = (Inr (length findings), ?fs)"
    using h by (simp add: applyRenaming_def apply_loop_ok)
  have b: "distinct (map fullPath findings) \<or> scanFiles e fs = Inr findings \<longrightarrow>
      (\<forall>f\<in>set findings. files ?fs (fullPath f) = Some (replaceReferences (content f) s))"
    using fold_writes_each [of findings e fs findings _ s "files fs"] by auto
  have c: "\<forall>p. p \<notin> fullPath ` set findings \<longrightarrow> files ?fs p = files fs p"
    by (simp add: fold_writes_other)
  have d: "fst (main e args stdin fs) = Exit 0 \<and> snd (snd (main e args stdin fs)) = ?fs \<and>
      Renamed (length findings) \<in> set (fst (snd (main e args stdin fs)))"
    if r: "reaches_apply e args stdin fs findings s"
  proof -
    from r have nd: "\<not> dryRun args" by (simp add: reaches_apply_def)
    from main_reaches_apply [OF r] obtain out where
      "main e args stdin fs = apply_and_report args findings s out fs" ..
    then show ?thesis using a nd by (simp add: apply_and_report_def)
  qed
  from a b c d show "\<exists>fs'. applyRenaming False findings s fs = (Inr (length findings), fs') \<and>
         (distinct (map fullPath findings) \<or> scanFiles e fs = Inr findings \<longrightarrow>
            (\<forall>f\<in>set findings. files fs' (fullPath f) = Some (replaceReferences (content f) s))) \<and>
         (\<forall>p. p \<notin> fullPath ` set findings \<longrightarrow> files fs' p = files fs p) \<and>
         (reaches_apply e args stdin fs findings s \<longrightarrow>
            fst (main e args stdin fs) = Exit 0 \<and> snd (snd (main e args stdin fs)) = fs' \<and>
            Renamed (length findings) \<in> set (fst (snd (main e args stdin fs))))"
    by blast
next
  assume h: "findings = pre @ f # rest \<and> (\<forall>g\<in>set pre. write_fails fs (fullPath g) = None) \<and>
      write_fails fs (fullPath f) = Some err"
  let ?fs = "fs\<lparr>files := fold (\<lambda>f m. m(fullPath f \<mapsto> replaceReferences (content f) s))
      pre (files fs)\<rparr>"
  have a: "applyRenaming False pre s fs = (Inr (length pre), ?fs)"
    using h by (simp add: applyRenaming_def apply_loop_ok)
  have b: "applyRenaming False findings s fs = (Inl err, ?fs)"
    using h a apply_loop_fail [of pre fs f err s rest 0] by (simp add: applyRenaming_def)
  from h have sub: "set pre \<subseteq> set findings" by auto
  have c: "distinct (map fullPath pre) \<or> scanFiles e fs = Inr findings \<longrightarrow>
      (\<forall>g\<in>set pre. files ?fs (fullPath g) = Some (replaceReferences (content g) s))"
    using fold_writes_each [of pre e fs findings _ s "files fs"] sub by auto
  have d: "fst (main e args stdin fs) = Exit 1 \<and> snd (snd (main e args stdin fs)) = ?fs \<and>
      last (fst (snd (main e args stdin fs))) = ErrorMessage (message err)"
    if r: "reaches_apply e args stdin fs findings s"
  proof -
    from r have nd: "\<not> dryRun args" by (simp add: reaches_apply_def)
    from main_reaches_apply [OF r] obtain out where
      "main e args stdin fs = apply_and_report args findings s out fs" ..
    then show ?thesis using b nd by (simp add: apply_and_report_def)
  qed
  from a b c d show "\<exists>fs'. applyRenaming False pre s fs = (Inr (length pre), fs') \<and>
         applyRenaming False findings s fs = (Inl err, fs') \<and>
         (distinct (map fullPath pre) \<or> scanFiles e fs = Inr findings \<longrightarrow>
            (\<forall>g\<in>set pre. files fs' (fullPath g) = Some (replaceReferences (content g) s))) \<and>
         (reaches_apply e args stdin fs findings s \<longrightarrow>
            fst (main e args stdin fs) = Exit 1 \<and> snd (snd (main e args stdin fs)) = fs' \<and>
            last (fst (snd (main e args stdin fs))) = ErrorMessage (message err))"
    by blast
qed

lemma ex_replace_twice:
  "replaceReferences ''@ordinarysh/ui @ordinarysh/ui'' ''myorg'' = ''@myorg/ui @myorg/ui''"
  by (simp add: replaceReferences_def js_replace_def prefix_regex_def replace_from.simps)

lemma ex_replace_name:
  "replaceReferences ''name: @ordinarysh/ui'' ''myorg'' = ''name: @myorg/ui''"
  by (simp add: replaceReferences_def js_replace_def prefix_regex_def replace_from.simps)

lemma ex_scanFiles_readonly: "scanFiles ex_env ex_fs_readonly = Inr ex_findings"
proof -
  have "readFileContent ex_fs_readonly ''/repo/apps/web/package.json'' =
      Inr (Some ''@ordinarysh/ui @ordinarysh/ui'')"
    "readFileContent ex_fs_readonly ''/repo/packages/ui/package.json'' =
      Inr (Some ''name: @ordinarysh/ui'')"
    by (simp_all add: readFileContent_def readFileSync_def ex_fs_readonly_def ex_files_def)
  then show ?thesis
    unfolding scanFiles_def ex_getFilesToScan
    by (simp add: ex_env_def ex_findReferences_twice ex_findReferences_name ex_findings_def Let_def)
qed

lemma ex_reaches_apply:
  assumes "scanFiles ex_env fs = Inr ex_findings"
  shows "reaches_apply ex_env [''--scope'', ''myorg''] [''y''] fs ex_findings ''myorg''"
proof -
  have "resolve_scope [''--scope'', ''myorg''] [''y''] = (Some ''myorg'', [''y''], [])"
    by (simp add: resolve_scope_def newScope_arg_def indexOf_def js_index_def)
  moreover have "toLowerCase (trim ''y'') = ''y''" by (simp add: prompt_defs)
  moreover have "\<not> dryRun [''--scope'', ''myorg'']" by (simp add: dryRun_def)
  moreover have "ex_findings \<noteq> []" by (simp add: ex_findings_def)
  ultimately show ?thesis
    using assms ex_valid_myorg by (simp add: reaches_apply_def)
qed

theorem applyRenaming_writes_or_fails_witness:
  "fst (main ex_env [''--scope'', ''myorg''] [''y''] ex_fs) = Exit 0 \<and>
   files (snd (snd (main ex_env [''--scope'', ''myorg''] [''y''] ex_fs)))
     ''/repo/apps/web/package.json'' = Some ''@myorg/ui @myorg/ui'' \<and>
   files (snd (snd (main ex_env [''--scope'', ''myorg''] [''y''] ex_fs)))
     ''/repo/packages/ui/package.json'' = Some ''name: @myorg/ui'' \<and>
   fst (main ex_env [''--scope'', ''myorg''] [''y''] ex_fs_readonly) = Exit 1 \<and>
   last (fst (snd (main ex_env [''--scope'', ''myorg''] [''y''] ex_fs_readonly))) =
     ErrorMessage ''EACCES: permission denied'' \<and>
   files (snd (snd (main ex_env [''--scope'', ''myorg''] [''y''] ex_fs_readonly)))
     ''/repo/apps/web/package.json'' = Some ''@myorg/ui @myorg/ui'' \<and>
   files (snd (snd (main ex_env [''--scope'', ''myorg''] [''y''] ex_fs_readonly)))
     ''/repo/packages/ui/package.json'' = Some ''name: @ordinarysh/ui''"
proof -
  let ?args = "[''--scope'', ''myorg'']"
  let ?f1 = "hd ex_findings" and ?f2 = "last ex_findings"
  note t = applyRenaming_writes_or_fails
  have w: "\<forall>f\<in>set ex_findings. write_fails ex_fs (fullPath f) = None"
    by (simp add: ex_findings_def ex_fs_def)
  from t [of ex_findings ex_fs "''myorg''" ex_env ?args "[''y'']"] w ex_scanFiles
    ex_reaches_apply [OF ex_scanFiles]
  obtain fs1 where ok: "fst (main ex_env ?args [''y''] ex_fs) = Exit 0"
    "snd (snd (main ex_env ?args [''y''] ex_fs)) = fs1"
    "\<forall>f\<in>set ex_findings. files fs1 (fullPath f) = Some (replaceReferences (content f) ''myorg'')"
    by blast
  have first: "files (snd (snd (main ex_env ?args [''y''] ex_fs)))
      ''/repo/apps/web/package.json'' = Some ''@myorg/ui @myorg/ui''"
    "files (snd (snd (main ex_env ?args [''y''] ex_fs)))
      ''/repo/packages/ui/package.json'' = Some ''name: @myorg/ui''"
    using ok(2,3) by (simp_all add: ex_findings_def ex_replace_twice ex_replace_name)
  have split: "ex_findings = [?f1] @ ?f2 # []" by (simp add: ex_findings_def)
  have pre: "\<forall>g\<in>set [?f1]. write_fails ex_fs_readonly (fullPath g) = None"
    by (simp add: ex_findings_def ex_fs_readonly_def)
  have fail: "write_fails ex_fs_readonly (fullPath ?f2) = Some EACCES"
    by (simp add: ex_findings_def ex_fs_readonly_def)
  from t [of ex_findings ex_fs_readonly "''myorg''" ex_env ?args "[''y'']" "[?f1]" ?f2 "[]" EACCES]
    split pre fail ex_reaches_apply [OF ex_scanFiles_readonly]
  obtain fs2 where ko: "applyRenaming False [?f1] ''myorg'' ex_fs_readonly = (Inr (length [?f1]), fs2)"
    "fst (main ex_env ?args [''y''] ex_fs_readonly) = Exit 1"
    "snd (snd (main ex_env ?args [''y''] ex_fs_readonly)) = fs2"
    "last (fst (snd (main ex_env ?args [''y''] ex_fs_readonly))) = ErrorMessage (message EACCES)"
    by blast
  have "applyRenaming False [?f1] ''myorg'' ex_fs_readonly =
      (Inr 1, ex_fs_readonly\<lparr>files := ex_files(''/repo/apps/web/package.json'' \<mapsto> ''@myorg/ui @myorg/ui'')\<rparr>)"
    by (simp add: applyRenaming_def writeFileContent_def writeFileSync_def ex_findings_def
        ex_replace_twice ex_fs_readonly_def)
  with ko(1) have fs2: "fs2 = ex_fs_readonly\<lparr>files := ex_files(''/repo/apps/web/package.json'' \<mapsto> ''@myorg/ui @myorg/ui'')\<rparr>"
    by simp
  have second: "files (snd (snd (main ex_env ?args [''y''] ex_fs_readonly)))
      ''/repo/apps/web/package.json'' = Some ''@myorg/ui @myorg/ui''"
    "files (snd (snd (main ex_env ?args [''y''] ex_fs_readonly)))
      ''/repo/packages/ui/package.json'' = Some ''name: @ordinarysh/ui''"
    unfolding ko(3) fs2 by (simp_all add: ex_files_def)
  from ok(1) first ko(2,4) second show ?thesis by (simp add: EACCES_def)
qed

subsection \<open>The confirmation prompt\<close>

lemma promptConfirmation_asks_again:
  "list_all (\<lambda>l. toLowerCase (trim l) \<notin> {[], ''n'', ''no'', ''y'', ''yes''}) junk \<Longrightarrow>
   promptConfirmation q (junk @ rest) =
     (case promptConfirmation q rest of
        (r, left, out) \<Rightarrow> (r, left, concat (map (\<lambda>l. [Question q, PleaseEnterYN]) junk) @ out))"
proof (induction junk)
  case Nil
  then show ?case by (simp split: prod.splits)
next
  case (Cons l junk)
  then show ?case by (auto simp: Let_def split: prod.splits)
qed

text \<open>
  C7. The confirmation prompt trims and lower-cases the line it reads. It returns false
  for the empty string, \<open>n\<close> and \<open>no\<close>, true for \<open>y\<close> and \<open>yes\<close>, and on any other
  line prints the hint and asks again, so that after any number of such lines the next
  line is treated as if it came first. A run whose confirmation prompt reads a blank
  line leaves the file system as it was; with a valid destination scope other than
  \<open>ordinarysh\<close> it reports the cancellation and exits with status 0.
\<close>

theorem confirmation_prompt_answers:
  "(toLowerCase (trim input) \<in> {[], ''n'', ''no''} \<longrightarrow>
      promptConfirmation q (input # rest) = (Some False, rest, [Question q])) \<and>
   (toLowerCase (trim input) \<in> {''y'', ''yes''} \<longrightarrow>
      promptConfirmation q (input # rest) = (Some True, rest, [Question q])) \<and>
   (toLowerCase (trim input) \<notin> {[], ''n'', ''no'', ''y'', ''yes''} \<longrightarrow>
      promptConfirmation q (input # rest) =
        (case promptConfirmation q rest of
           (r, left, out) \<Rightarrow> (r, left, Question q # PleaseEnterYN # out))) \<and>
   (list_all (\<lambda>l. toLowerCase (trim l) \<notin> {[], ''n'', ''no'', ''y'', ''yes''}) junk \<longrightarrow>
      promptConfirmation q (junk @ rest) =
        (case promptConfirmation q rest of
           (r, left, out) \<Rightarrow>
             (r, left, concat (map (\<lambda>l. [Question q, PleaseEnterYN]) junk) @ out))) \<and>
   (scanFiles e fs = Inr findings \<and> findings \<noteq> [] \<and> \<not> dryRun args \<and>
    resolve_scope args stdin = (Some s, input # rest, asked) \<and> toLowerCase (trim input) = [] \<longrightarrow>
      snd (snd (main e args stdin fs)) = fs \<and>
      (isValidScope s \<and> s \<noteq> ''ordinarysh'' \<longrightarrow>
         fst (main e args stdin fs) = Exit 0 \<and>
         last (fst (snd (main e args stdin fs))) = Cancelled))"
proof (intro conjI impI)
  assume "list_all (\<lambda>l. toLowerCase (trim l) \<notin> {[], ''n'', ''no'', ''y'', ''yes''}) junk"
  then show "promptConfirmation q (junk @ rest) =
      (case promptConfirmation q rest of
         (r, left, out) \<Rightarrow>
           (r, left, concat (map (\<lambda>l. [Question q, PleaseEnterYN]) junk) @ out))"
    by (rule promptConfirmation_asks_again)
qed (auto simp: Let_def main_def confirm_and_apply_def)

theorem confirmation_prompt_answers_witness:
  "promptConfirmation ''Continue? (y/N): '' [''  '', ''y''] =
     (Some False, [''y''], [Question ''Continue? (y/N): '']) \<and>
   promptConfirmation ''Continue? (y/N): '' ['' No'', ''y''] =
     (Some False, [''y''], [Question ''Continue? (y/N): '']) \<and>
   promptConfirmation ''Continue? (y/N): '' ['' Yes '', ''n''] =
     (Some True, [''n''], [Question ''Continue? (y/N): '']) \<and>
   promptConfirmation ''Continue? (y/N): '' [''maybe'', ''what'', []] =
     (Some False, [],
      [Question ''Continue? (y/N): '', PleaseEnterYN, Question ''Continue? (y/N): '',
       PleaseEnterYN, Question ''Continue? (y/N): '']) \<and>
   fst (main ex_env [''--scope'', ''myorg''] [''  '', ''y''] ex_fs) = Exit 0 \<and>
   last (fst (snd (main ex_env [''--scope'', ''myorg''] [''  '', ''y''] ex_fs))) = Cancelled \<and>
   snd (snd (main ex_env [''--scope'', ''myorg''] [''  '', ''y''] ex_fs)) = ex_fs"
proof -
  let ?q = "''Continue? (y/N): ''"
  have blank: "toLowerCase (trim ''  '') = []" "toLowerCase (trim []) = []"
    by (simp_all add: prompt_defs)
  have no: "toLowerCase (trim '' No'') = ''no''" by (simp add: prompt_defs)
  have yes: "toLowerCase (trim '' Yes '') = ''yes''" by (simp add: prompt_defs)
  have junk: "list_all (\<lambda>l. toLowerCase (trim l) \<notin> {[], ''n'', ''no'', ''y'', ''yes''})
      [''maybe'', ''what'']"
    by (simp add: prompt_defs)
  have r: "resolve_scope [''--scope'', ''myorg''] [''  '', ''y''] = (Some ''myorg'', [''  '', ''y''], [])"
    by (simp add: resolve_scope_def newScope_arg_def indexOf_def js_index_def)
  have d: "\<not> dryRun [''--scope'', ''myorg'']" by (simp add: dryRun_def)
  have n: "ex_findings \<noteq> []" by (simp add: ex_findings_def)
  have o: "''myorg'' \<noteq> ''ordinarysh''" by simp
  note t = confirmation_prompt_answers
  from t [where input = "''  ''" and q = ?q and rest = "[''y'']" and e = ex_env and fs = ex_fs
      and findings = ex_findings and args = "[''--scope'', ''myorg'']"
      and stdin = "[''  '', ''y'']" and s = "''myorg''" and asked = "[]"]
    blank r d n o ex_scanFiles ex_valid_myorg
  have 1: "promptConfirmation ?q [''  '', ''y''] = (Some False, [''y''], [Question ?q])"
    "fst (main ex_env [''--scope'', ''myorg''] [''  '', ''y''] ex_fs) = Exit 0"
    "last (fst (snd (main ex_env [''--scope'', ''myorg''] [''  '', ''y''] ex_fs))) = Cancelled"
    "snd (snd (main ex_env [''--scope'', ''myorg''] [''  '', ''y''] ex_fs)) = ex_fs"
    by simp_all
  from t [where input = "'' No''" and q = ?q and rest = "[''y'']"] no
  have 2: "promptConfirmation ?q ['' No'', ''y''] = (Some False, [''y''], [Question ?q])"
    by simp
  from t [where input = "'' Yes ''" and q = ?q and rest = "[''n'']"] yes
  have 3: "promptConfirmation ?q ['' Yes '', ''n''] = (Some True, [''n''], [Question ?q])"
    by simp
  from t [where input = "[]" and q = ?q and rest = "[]"] blank
  have 4: "promptConfirmation ?q [[]] = (Some False, [], [Question ?q])"
    by simp
  from t [where junk = "[''maybe'', ''what'']" and q = ?q and rest = "[[]]"] junk
  have 5: "promptConfirmation ?q [''maybe'', ''what'', []] =
      (Some False, [],
       [Question ?q, PleaseEnterYN, Question ?q, PleaseEnterYN, Question ?q])"
    unfolding 4 by simp
  from 1 2 3 5 show ?thesis by simp
qed

subsection \<open>Replacing a literal\<close>

lemma GetSubstitution_plain:
  "CHR ''$'' \<notin> set tmpl \<Longrightarrow> GetSubstitution m b a tmpl = tmpl"
  by (induction m b a tmpl rule: GetSubstitution.induct) auto

lemma replace_from_Lit_unfold:
  assumes "l \<noteq> []"
  shows "replace_from (Lit l) tmpl inp (k, x) =
     (if prefix l x
      then GetSubstitution l (take k inp) (drop (length l) x) tmpl @
           replace_from (Lit l) tmpl inp (k + length l, drop (length l) x)
      else (case x of [] \<Rightarrow> [] | c # cs \<Rightarrow> c # replace_from (Lit l) tmpl inp (Suc k, cs)))"
proof (cases "prefix l x")
  case True
  then have "take (length l) x = l" by (auto simp: prefix_def)
  with True assms show ?thesis
    by (subst replace_from.simps) simp
next
  case False
  then show ?thesis by (subst replace_from.simps) simp
qed

text \<open>Without a match of the literal anywhere, the input is returned as it is.\<close>

lemma replace_from_no_match:
  "\<not> sublist l x \<Longrightarrow> replace_from (Lit l) tmpl inp (k, x) = x"
proof (induction x arbitrary: k)
  case Nil
  then have "l \<noteq> []" by auto
  then show ?case by (simp add: replace_from_Lit_unfold)
next
  case (Cons c cs)
  then have "l \<noteq> []" "\<not> prefix l (c # cs)" "\<not> sublist l cs"
    by (auto simp: sublist_Cons_right)
  with Cons.IH show ?case by (simp add: replace_from_Lit_unfold)
qed

text \<open>With a replacement text free of \<open>$\<close>, neither the index nor the whole input matter.\<close>

lemma replace_from_plain:
  assumes "l \<noteq> []" and "CHR ''$'' \<notin> set tmpl"
  shows "replace_from (Lit l) tmpl inp (k, x) = replace_from (Lit l) tmpl inp' (k', x)"
proof (induction x arbitrary: k k' rule: length_induct)
  case (1 x)
  show ?case
  proof (cases "prefix l x")
    case True
    with assms(1) have "length (drop (length l) x) < length x"
      by (cases l) (auto simp: prefix_def)
    with 1 have "replace_from (Lit l) tmpl inp (k + length l, drop (length l) x) =
        replace_from (Lit l) tmpl inp' (k' + length l, drop (length l) x)"
      by blast
    with True assms show ?thesis
      by (simp add: replace_from_Lit_unfold [of l tmpl _ _ x] GetSubstitution_plain)
  next
    case False
    show ?thesis
    proof (cases x)
      case Nil
      with assms show ?thesis by (simp add: replace_from_Lit_unfold)
    next
      case (Cons c cs)
      with 1 have "replace_from (Lit l) tmpl inp (Suc k, cs) =
          replace_from (Lit l) tmpl inp' (Suc k', cs)" by simp
      with False Cons assms show ?thesis
        by (simp add: replace_from_Lit_unfold [of l tmpl _ _ "c # cs"])
    qed
  qed
qed

lemma js_replace_Lit_Nil: "l \<noteq> [] \<Longrightarrow> js_replace (Lit l) tmpl [] = []"
  by (simp add: js_replace_def replace_from_Lit_unfold)

lemma js_replace_Lit_match:
  assumes "l \<noteq> []" and "CHR ''$'' \<notin> set tmpl"
  shows "js_replace (Lit l) tmpl (l @ y) = tmpl @ js_replace (Lit l) tmpl y"
proof -
  have "js_replace (Lit l) tmpl (l @ y) =
      tmpl @ replace_from (Lit l) tmpl (l @ y) (length l, y)"
    unfolding js_replace_def
    by (subst replace_from_Lit_unfold [OF assms(1)]) (simp add: GetSubstitution_plain [OF assms(2)])
  also have "replace_from (Lit l) tmpl (l @ y) (length l, y) = replace_from (Lit l) tmpl y (0, y)"
    by (rule replace_from_plain [OF assms])
  finally show ?thesis by (simp add: js_replace_def)
qed

lemma js_replace_Lit_skip:
  assumes "l \<noteq> []" and "CHR ''$'' \<notin> set tmpl" and "\<not> prefix l (c # cs)"
  shows "js_replace (Lit l) tmpl (c # cs) = c # js_replace (Lit l) tmpl cs"
proof -
  have "js_replace (Lit l) tmpl (c # cs) = c # replace_from (Lit l) tmpl (c # cs) (Suc 0, cs)"
    unfolding js_replace_def
    using assms(3) by (subst replace_from_Lit_unfold [OF assms(1)]) simp
  also have "replace_from (Lit l) tmpl (c # cs) (Suc 0, cs) = replace_from (Lit l) tmpl cs (0, cs)"
    by (rule replace_from_plain [OF assms(1,2)])
  finally show ?thesis by (simp add: js_replace_def)
qed

text \<open>Induction over an input along the scan for the literal.\<close>

lemma literal_scan_induct [case_names Nil Match Skip Literal]:
  assumes "P []"
    and "\<And>y. P y \<Longrightarrow> P (l @ y)"
    and "\<And>c cs. \<not> prefix l (c # cs) \<Longrightarrow> P cs \<Longrightarrow> P (c # cs)"
    and "l \<noteq> []"
  shows "P x"
proof (induction x rule: length_induct)
  case (1 x)
  show ?case
  proof (cases "prefix l x")
    case True
    then obtain y where "x = l @ y" by (auto simp: prefix_def)
    with 1 assms(2,4) show ?thesis by simp
  next
    case False
    with 1 assms(1,3) show ?thesis by (cases x) auto
  qed
qed

text \<open>
  From here on the literal is \<open>a # m @ [z]\<close> and the replacement text \<open>a # s @ [z]\<close>,
  as in \<open>@ordinarysh/\<close> and \<open>@scope/\<close>.
\<close>

lemma js_replace_copies:
  assumes "CHR ''$'' \<notin> set tmpl" and "a \<notin> set t"
  shows "js_replace (Lit (a # l')) tmpl (t @ y) = t @ js_replace (Lit (a # l')) tmpl y"
  using assms(2)
proof (induction t)
  case Nil
  then show ?case by simp
next
  case (Cons c t)
  then have "\<not> prefix (a # l') (c # t @ y)" by auto
  from js_replace_Lit_skip [OF _ assms(1) this] Cons show ?case by simp
qed

lemma js_replace_takeWhile:
  assumes "CHR ''$'' \<notin> set (a # t')"
  shows "takeWhile (\<lambda>c. c \<noteq> a) (js_replace (Lit (a # l')) (a # t') x) = takeWhile (\<lambda>c. c \<noteq> a) x"
proof (induction x rule: literal_scan_induct [where l = "a # l'"])
  case Nil
  then show ?case by (simp add: js_replace_Lit_Nil)
next
  case (Match y)
  have "js_replace (Lit (a # l')) (a # t') ((a # l') @ y) =
      (a # t') @ js_replace (Lit (a # l')) (a # t') y"
    by (rule js_replace_Lit_match [OF _ assms]) simp
  then show ?case by simp
next
  case (Skip c cs)
  then show ?case by (simp add: js_replace_Lit_skip [OF _ assms])
qed simp

lemma prefix_takeWhile:
  "\<forall>c\<in>set p. Q c \<Longrightarrow> prefix p (takeWhile Q xs) \<longleftrightarrow> prefix p xs"
proof (induction p arbitrary: xs)
  case Nil
  then show ?case by simp
next
  case (Cons c p)
  then show ?case by (cases xs) auto
qed

lemma js_replace_no_new_prefix:
  assumes "CHR ''$'' \<notin> set (a # t')" and "a \<notin> set l'" and "\<not> prefix (a # l') x"
  shows "\<not> prefix (a # l') (js_replace (Lit (a # l')) (a # t') x)"
proof (cases x)
  case Nil
  then show ?thesis by (simp add: js_replace_Lit_Nil)
next
  case (Cons c cs)
  let ?R = "js_replace (Lit (a # l')) (a # t')"
  from assms(3) Cons have r: "?R x = c # ?R cs"
    by (simp add: js_replace_Lit_skip [OF _ assms(1)])
  show ?thesis
  proof
    assume "prefix (a # l') (?R x)"
    with r have c: "c = a" and "prefix l' (?R cs)" by auto
    with assms(2) have "prefix l' (takeWhile (\<lambda>c. c \<noteq> a) (?R cs))"
      by (subst prefix_takeWhile) auto
    then have "prefix l' (takeWhile (\<lambda>c. c \<noteq> a) cs)"
      by (simp add: js_replace_takeWhile [OF assms(1)])
    with assms(2) have "prefix l' cs"
      by (subst (asm) prefix_takeWhile) auto
    with c Cons assms(3) show False by simp
  qed
qed

lemma sublist_skip_text:
  "a \<notin> set t \<Longrightarrow> sublist (a # l') (t @ y) \<Longrightarrow> sublist (a # l') y"
  by (induction t) (auto simp: sublist_Cons_right)

lemma first_separator:
  assumes "z \<notin> set m" and "z \<notin> set s" and "prefix (m @ [z]) (s @ z # y)"
  shows "s = m"
proof -
  from assms(3) obtain r where "s @ z # y = m @ z # r" by (auto simp: prefix_def)
  then have "takeWhile (\<lambda>c. c \<noteq> z) (s @ z # y) = takeWhile (\<lambda>c. c \<noteq> z) (m @ z # r)" by simp
  then have "takeWhile (\<lambda>c. c \<noteq> z) s = takeWhile (\<lambda>c. c \<noteq> z) m"
    by (simp add: takeWhile_tail)
  moreover from assms(1,2) have "takeWhile (\<lambda>c. c \<noteq> z) s = s" "takeWhile (\<lambda>c. c \<noteq> z) m = m"
    by (auto simp: takeWhile_eq_all_conv)
  ultimately show ?thesis by simp
qed

text \<open>After the replacement by a different text the literal no longer occurs.\<close>

lemma js_replace_removes_literal:
  assumes d: "CHR ''$'' \<notin> set (a # s @ [z])"
    and m: "a \<notin> set m" "z \<notin> set m" and s: "a \<notin> set s" "z \<notin> set s" and az: "a \<noteq> z" and sm: "s \<noteq> m"
  shows "\<not> sublist (a # m @ [z]) (js_replace (Lit (a # m @ [z])) (a # s @ [z]) x)"
proof (induction x rule: literal_scan_induct [where l = "a # m @ [z]"])
  case Nil
  then show ?case by (simp add: js_replace_Lit_Nil)
next
  case (Match y)
  let ?R = "js_replace (Lit (a # m @ [z])) (a # s @ [z])"
  have "?R ((a # m @ [z]) @ y) = (a # s @ [z]) @ ?R y"
    by (rule js_replace_Lit_match [OF _ d]) simp
  then have r: "?R ((a # m @ [z]) @ y) = a # ((s @ [z]) @ ?R y)" by simp
  have "\<not> prefix (m @ [z]) (s @ z # ?R y)"
    using first_separator [OF m(2) s(2)] sm by blast
  moreover have "\<not> sublist (a # m @ [z]) ((s @ [z]) @ ?R y)"
    using sublist_skip_text [of a "s @ [z]" "m @ [z]" "?R y"] s(1) az Match by auto
  ultimately show ?case unfolding r by (simp add: sublist_Cons_right)
next
  case (Skip c cs)
  let ?R = "js_replace (Lit (a # m @ [z])) (a # s @ [z])"
  have r: "?R (c # cs) = c # ?R cs"
    using Skip(1) by (simp add: js_replace_Lit_skip [OF _ d])
  have "\<not> prefix (a # m @ [z]) (?R (c # cs))"
    using js_replace_no_new_prefix [OF d _ Skip(1)] m(1) az by simp
  with Skip(2) show ?case unfolding r by (simp add: sublist_Cons_right)
qed simp

lemma js_replace_by_itself:
  assumes "l \<noteq> []" and "CHR ''$'' \<notin> set l"
  shows "js_replace (Lit l) l x = x"
proof (induction x rule: literal_scan_induct [where l = l])
  case Nil
  then show ?case by (simp add: js_replace_Lit_Nil assms)
next
  case (Match y)
  then show ?case by (simp add: js_replace_Lit_match assms)
next
  case (Skip c cs)
  then show ?case by (simp add: js_replace_Lit_skip assms)
qed (rule assms)

lemma match_from_no_match:
  "\<not> sublist l x \<Longrightarrow> match_from (Seq (Lit l) r) (k, x) = []"
proof (induction x arbitrary: k)
  case Nil
  then show ?case by (subst match_from.simps) auto
next
  case (Cons c cs)
  then have "\<not> prefix l (c # cs)" "\<not> sublist l cs"
    by (auto simp: sublist_Cons_right)
  with Cons.IH show ?case by (subst match_from.simps) simp
qed

subsection \<open>\<open>replaceReferences\<close>\<close>

lemma replaceReferences_js:
  "replaceReferences x s =
     js_replace (Lit (CHR ''@'' # ''ordinarysh'' @ [CHR ''/''])) (CHR ''@'' # s @ [CHR ''/'']) x"
  by (simp add: replaceReferences_def prefix_regex_def js_replace_Lit_Nil)

lemma valid_scope_chars:
  assumes "isValidScope s" and "\<not> lower_digit_hyphen c"
  shows "c \<notin> set s"
  using assms by (auto simp: isValidScope_spec scope_name_spec_def list_all_iff)

lemma valid_scope_plain:
  assumes "isValidScope s"
  shows "CHR ''$'' \<notin> set s" "CHR ''@'' \<notin> set s" "CHR ''/'' \<notin> set s" "CHR 0x0A \<notin> set s"
  by (rule valid_scope_chars [OF assms], simp add: lower_digit_hyphen_def in_range_def)+

lemma replaceReferences_same: "replaceReferences x ''ordinarysh'' = x"
  unfolding replaceReferences_js
  using js_replace_by_itself [of "''@ordinarysh/''" x] by simp

lemma replaceReferences_removes_prefix:
  assumes "isValidScope s" and "s \<noteq> ''ordinarysh''"
  shows "\<not> sublist ''@ordinarysh/'' (replaceReferences x s)"
proof -
  note v = valid_scope_plain [OF assms(1)]
  have "\<not> sublist (CHR ''@'' # ''ordinarysh'' @ [CHR ''/''])
      (js_replace (Lit (CHR ''@'' # ''ordinarysh'' @ [CHR ''/''])) (CHR ''@'' # s @ [CHR ''/'']) x)"
    by (rule js_replace_removes_literal) (use v assms(2) in simp_all)
  then show ?thesis by (simp add: replaceReferences_js)
qed

lemma replaceReferences_unchanged:
  "\<not> sublist ''@ordinarysh/'' x \<Longrightarrow> replaceReferences x s = x"
  by (simp add: replaceReferences_def js_replace_def prefix_regex_def replace_from_no_match)

text \<open>
  C3. A content without any occurrence of the old prefix \<open>@ordinarysh/\<close> is returned
  unchanged by \<open>replaceReferences\<close>, whatever the new scope.
\<close>

theorem replaceReferences_identity:
  "\<not> sublist ''@ordinarysh/'' c \<Longrightarrow> replaceReferences c newScope = c"
  by (rule replaceReferences_unchanged)

theorem replaceReferences_identity_witness:
  "\<not> sublist ''@ordinarysh/'' ''name: @other/ui'' \<and>
   replaceReferences ''name: @other/ui'' ''myorg'' = ''name: @other/ui''"
proof -
  have n: "\<not> sublist ''@ordinarysh/'' ''name: @other/ui''"
    by (simp add: sublist_Cons_right)
  from n replaceReferences_identity [OF n, of "''myorg''"] show ?thesis by simp
qed

text \<open>
  C4. For a destination scope that satisfies the scope-name predicate, replacing twice
  gives the same content as replacing once.
\<close>

theorem replaceReferences_idempotent:
  "isValidScope s \<Longrightarrow>
   replaceReferences (replaceReferences c s) s = replaceReferences c s"
proof (cases "s = ''ordinarysh''")
  case True
  then show ?thesis by (simp add: replaceReferences_same)
next
  case False
  assume "isValidScope s"
  from replaceReferences_removes_prefix [OF this False]
  show ?thesis by (rule replaceReferences_unchanged)
qed

theorem replaceReferences_idempotent_witness:
  "isValidScope ''myorg'' \<and>
   replaceReferences ''@ordinarysh/ui @ordinarysh/ui'' ''myorg'' = ''@myorg/ui @myorg/ui'' \<and>
   replaceReferences ''@myorg/ui @myorg/ui'' ''myorg'' = ''@myorg/ui @myorg/ui''"
  using ex_valid_myorg ex_replace_twice
    replaceReferences_idempotent [OF ex_valid_myorg, of "''@ordinarysh/ui @ordinarysh/ui''"]
  by simp

subsection \<open>A second run\<close>

text \<open>
  The file system after a renaming that wrote every finding; scanned again, no file
  yields a finding.
\<close>

lemma rescan_finds_nothing:
  assumes scan: "scanFiles e fs = Inr findings"
    and valid: "isValidScope s" "s \<noteq> ''ordinarysh''"
  shows "scanFiles e
      (fs\<lparr>files := fold (\<lambda>f m. m(fullPath f \<mapsto> replaceReferences (content f) s))
         findings (files fs)\<rparr>) = Inr []"
proof -
  let ?fl = "getFilesToScan e"
  let ?fs = "fs\<lparr>files := fold (\<lambda>f m. m(fullPath f \<mapsto> replaceReferences (content f) s))
      findings (files fs)\<rparr>"
  from scan have nt: "\<forall>f\<in>set ?fl. \<not> read_throws e fs f"
    unfolding scanFiles_def by (rule scan_loop_Inr_no_throw)
  with scan have fnd: "findings = concat (map (found_in e fs) ?fl)"
    by (simp add: scanFiles_def scan_loop_all)
  note read = scan_findings_read [OF scan]
  have step: "\<not> read_throws e ?fs f \<and> found_in e ?fs f = []" if f: "f \<in> set ?fl" for f
  proof (cases "path_join e (rootDir e) f \<in> fullPath ` set findings")
    case True
    let ?p = "path_join e (rootDir e) f"
    from True obtain g where g: "g \<in> set findings" "fullPath g = ?p" by auto
    from read [OF g(1)] g(2) have r: "read_fails fs ?p = None" "files fs ?p = Some (content g)"
      by (simp_all add: readFileContent_Some)
    have "\<forall>h\<in>set findings. fullPath h = ?p \<longrightarrow> content h = content g"
      using scan_findings_same_content [OF scan _ g(1)] g(2) by auto
    from fold_writes_same_content [OF this, of s "files fs"] True
    have "files ?fs ?p = Some (replaceReferences (content g) s)" by simp
    with r(1) have "readFileSync ?fs ?p = Inr (replaceReferences (content g) s)"
      by (simp add: readFileSync_def)
    moreover have "findReferences (replaceReferences (content g) s) = []"
      using replaceReferences_removes_prefix [OF valid, of "content g"]
      by (simp add: findReferences_def js_match_def new_Set_def reference_regex_def
          match_from_no_match)
    ultimately show ?thesis
      by (simp add: found_in_def read_throws_def readFileContent_def split: sum.splits)
  next
    case False
    let ?p = "path_join e (rootDir e) f"
    from False have "files ?fs ?p = files fs ?p" by (simp add: fold_writes_other)
    then have same: "readFileSync ?fs ?p = readFileSync fs ?p"
      by (simp add: readFileSync_def split: option.splits)
    have "found_in e fs f = []"
    proof (rule ccontr)
      assume "found_in e fs f \<noteq> []"
      then obtain g where g: "g \<in> set (found_in e fs f)" by (cases "found_in e fs f") auto
      with f have "g \<in> set findings" unfolding fnd by auto
      with found_in_member(1) [OF g] False show False by force
    qed
    with same nt f show ?thesis
      by (simp add: found_in_def read_throws_def readFileContent_def)
  qed
  then have "scan_loop e ?fs ?fl [] = Inr ([] @ concat (map (found_in e ?fs) ?fl))"
    by (intro scan_loop_all) simp
  also have "concat (map (found_in e ?fs) ?fl) = []" using step by simp
  finally show ?thesis unfolding scanFiles_def by (simp only: append_Nil)
qed

lemma second_run:
  assumes r: "reaches_apply e args stdin fs findings s"
    and ok: "fst (main e args stdin fs) = Exit 0"
  shows "main e args' stdin' (snd (snd (main e args stdin fs))) =
     (Exit 0, [Banner, NoReferencesFound], snd (snd (main e args stdin fs)))"
proof -
  from r have nd: "\<not> dryRun args" and scan: "scanFiles e fs = Inr findings"
    and valid: "isValidScope s" "s \<noteq> ''ordinarysh''"
    by (simp_all add: reaches_apply_def)
  from main_reaches_apply [OF r] obtain out where
    m: "main e args stdin fs = apply_and_report args findings s out fs" ..
  obtain res fs' where a: "applyRenaming False findings s fs = (res, fs')"
    by (cases "applyRenaming False findings s fs")
  with m ok nd obtain k where k: "res = Inr k"
    by (cases res) (simp_all add: apply_and_report_def)
  from a k have "apply_loop False s findings 0 fs = (Inr k, fs')"
    by (simp add: applyRenaming_def)
  then have "\<forall>f\<in>set findings. write_fails fs (fullPath f) = None"
    by (rule apply_loop_Inr)
  then have "fs' = fs\<lparr>files := fold (\<lambda>f m. m(fullPath f \<mapsto> replaceReferences (content f) s))
      findings (files fs)\<rparr>"
    using a by (simp add: applyRenaming_def apply_loop_ok)
  with rescan_finds_nothing [OF scan valid] have "scanFiles e fs' = Inr []" by simp
  moreover from m a k nd have "snd (snd (main e args stdin fs)) = fs'"
    by (simp add: apply_and_report_def)
  ultimately show ?thesis by (simp add: main_def)
qed

text \<open>
  C5. For a valid destination scope other than \<open>ordinarysh\<close>, the rewritten content has
  no match of the reference pattern: \<open>findReferences\<close> returns the empty list and
  \<open>countFileReferences\<close> returns 0. Hence after a run that applied the renaming and
  exited with status 0, any further run over the files it left finds no reference,
  reports so and changes nothing.
\<close>

theorem rewritten_content_has_no_references:
  assumes "isValidScope s" and "s \<noteq> ''ordinarysh''"
  shows "findReferences (replaceReferences c s) = [] \<and>
         countFileReferences (replaceReferences c s) = 0 \<and>
         (reaches_apply e args stdin fs findings s \<and> fst (main e args stdin fs) = Exit 0 \<longrightarrow>
            main e args' stdin' (snd (snd (main e args stdin fs))) =
              (Exit 0, [Banner, NoReferencesFound], snd (snd (main e args stdin fs))))"
proof -
  from replaceReferences_removes_prefix [OF assms]
  have "match_from reference_regex (0, replaceReferences c s) = []"
    unfolding reference_regex_def by (rule match_from_no_match)
  then have "findReferences (replaceReferences c s) = [] \<and>
      countFileReferences (replaceReferences c s) = 0"
    by (simp add: findReferences_def countFileReferences_def js_match_def new_Set_def)
  with second_run [of e args stdin fs findings s args' stdin'] show ?thesis by blast
qed

lemma ex_first_run: "fst (main ex_env [''--scope'', ''myorg''] [''y''] ex_fs) = Exit 0"
proof -
  let ?args = "[''--scope'', ''myorg'']"
  from main_reaches_apply [OF ex_reaches_apply [OF ex_scanFiles]] obtain out where
    "main ex_env ?args [''y''] ex_fs = apply_and_report ?args ex_findings ''myorg'' out ex_fs" ..
  moreover have "\<forall>f\<in>set ex_findings. write_fails ex_fs (fullPath f) = None"
    by (simp add: ex_findings_def ex_fs_def)
  ultimately show ?thesis
    by (simp add: apply_and_report_def applyRenaming_def apply_loop_ok dryRun_def)
qed

theorem rewritten_content_has_no_references_witness:
  "isValidScope ''myorg'' \<and> ''myorg'' \<noteq> ''ordinarysh'' \<and>
   findReferences ''@ordinarysh/ui @ordinarysh/ui'' = [''@ordinarysh/ui''] \<and>
   findReferences ''@myorg/ui @myorg/ui'' = [] \<and>
   reaches_apply ex_env [''--scope'', ''myorg''] [''y''] ex_fs ex_findings ''myorg'' \<and>
   fst (main ex_env [''--scope'', ''myorg''] [''y''] ex_fs) = Exit 0 \<and>
   main ex_env [''--check''] [] (snd (snd (main ex_env [''--scope'', ''myorg''] [''y''] ex_fs))) =
     (Exit 0, [Banner, NoReferencesFound],
      snd (snd (main ex_env [''--scope'', ''myorg''] [''y''] ex_fs)))"
proof -
  have d: "''myorg'' \<noteq> ''ordinarysh''" by simp
  note r = ex_reaches_apply [OF ex_scanFiles]
  from rewritten_content_has_no_references [OF ex_valid_myorg d,
      of "''@ordinarysh/ui @ordinarysh/ui''" ex_env "[''--scope'', ''myorg'']" "[''y'']" ex_fs
        ex_findings "[''--check'']" "[]"]
    r ex_first_run
  show ?thesis
    using ex_valid_myorg ex_findReferences_twice by (simp add: ex_replace_twice)
qed

subsection \<open>Lines\<close>

lemma split_at_nonempty: "split_at d x \<noteq> []"
  by (induction x) (auto split: list.splits)

lemma split_at_Cons_other:
  "c \<noteq> d \<Longrightarrow> split_at d (c # x) = (c # hd (split_at d x)) # tl (split_at d x)"
  using split_at_nonempty [of d x] by (cases "split_at d x") auto

lemma hd_split_at: "hd (split_at d x) = takeWhile (\<lambda>c. c \<noteq> d) x"
proof (induction x)
  case Nil
  then show ?case by simp
next
  case (Cons c x)
  show ?case
  proof (cases "c = d")
    case True
    then show ?thesis by simp
  next
    case False
    from split_at_Cons_other [OF this, of x] False Cons show ?thesis by simp
  qed
qed

lemma split_at_append_free:
  "d \<notin> set t \<Longrightarrow> split_at d (t @ y) = (t @ hd (split_at d y)) # tl (split_at d y)"
proof (induction t)
  case Nil
  then show ?case using split_at_nonempty [of d y] by simp
next
  case (Cons c t)
  then have "c \<noteq> d" by auto
  from split_at_Cons_other [OF this, of "t @ y"] Cons show ?case by simp
qed

lemma length_split_at: "length (split_at d x) = Suc (length (filter (\<lambda>c. c = d) x))"
proof (induction x)
  case Nil
  then show ?case by simp
next
  case (Cons c x)
  then show ?case using split_at_nonempty [of d x] by (cases "split_at d x") auto
qed

text \<open>
  A literal and a replacement text without the separator: splitting the replaced input
  gives the replaced pieces.
\<close>

lemma split_at_js_replace:
  assumes t: "CHR ''$'' \<notin> set tmpl" "d \<notin> set tmpl" and l: "d \<notin> set l" and ne: "l \<noteq> []"
  shows "split_at d (js_replace (Lit l) tmpl x) = map (js_replace (Lit l) tmpl) (split_at d x)"
proof (induction x rule: literal_scan_induct [where l = l])
  case Nil
  then show ?case by (simp add: js_replace_Lit_Nil [OF ne])
next
  case (Match y)
  let ?R = "js_replace (Lit l) tmpl"
  have "split_at d (?R (l @ y)) = (tmpl @ hd (split_at d (?R y))) # tl (split_at d (?R y))"
    by (simp add: js_replace_Lit_match [OF ne t(1)] split_at_append_free [OF t(2)])
  also have "\<dots> = (tmpl @ ?R (hd (split_at d y))) # map ?R (tl (split_at d y))"
    using Match split_at_nonempty [of d y] by (simp add: hd_map map_tl)
  also have "\<dots> = map ?R ((l @ hd (split_at d y)) # tl (split_at d y))"
    by (simp add: js_replace_Lit_match [OF ne t(1)])
  finally show ?case by (simp add: split_at_append_free [OF l])
next
  case (Skip c cs)
  let ?R = "js_replace (Lit l) tmpl"
  have r: "?R (c # cs) = c # ?R cs"
    by (rule js_replace_Lit_skip [OF ne t(1) Skip(1)])
  show ?case
  proof (cases "c = d")
    case True
    with Skip(2) show ?thesis unfolding r by (simp add: js_replace_Lit_Nil [OF ne])
  next
    case False
    have "prefix (c # hd (split_at d cs)) (c # cs)"
      by (simp add: hd_split_at takeWhile_is_prefix)
    with Skip(1) have "\<not> prefix l (c # hd (split_at d cs))"
      using prefix_order.trans by blast
    then have h: "?R (c # hd (split_at d cs)) = c # ?R (hd (split_at d cs))"
      by (rule js_replace_Lit_skip [OF ne t(1)])
    have "split_at d (c # ?R cs) = (c # hd (split_at d (?R cs))) # tl (split_at d (?R cs))"
      using False by (rule split_at_Cons_other)
    also have "\<dots> = (c # ?R (hd (split_at d cs))) # map ?R (tl (split_at d cs))"
      using Skip(2) split_at_nonempty [of d cs] by (simp add: hd_map map_tl)
    also have "\<dots> = map ?R ((c # hd (split_at d cs)) # tl (split_at d cs))"
      by (simp add: h)
    also have "\<dots> = map ?R (split_at d (c # cs))"
      by (simp only: split_at_Cons_other [OF False])
    finally show ?thesis unfolding r .
  qed
qed (rule ne)

lemma zip_by_index:
  "length ys = length xs \<Longrightarrow> zip xs ys = map (\<lambda>i. (xs ! i, ys ! i)) [0 ..< length xs]"
  by (rule nth_equalityI) auto

lemma diff_lines_zip:
  assumes "length newLines = length oldLines"
  shows "diff_lines oldLines newLines =
     concat (map (\<lambda>(old, new). if old \<noteq> new then [DiffOld old, DiffNew (Some new)] else [])
       (zip oldLines newLines))"
proof -
  let ?pair = "\<lambda>(old, new). if old \<noteq> new then [DiffOld old, DiffNew (Some new)] else []"
  have "map (\<lambda>i. if Some (oldLines ! i) \<noteq> js_index newLines i
                  then [DiffOld (oldLines ! i), DiffNew (js_index newLines i)] else [])
          [0 ..< length oldLines] =
        map (\<lambda>i. ?pair (oldLines ! i, newLines ! i)) [0 ..< length oldLines]"
    using assms by (intro map_cong) (auto simp: js_index_def)
  also have "\<dots> = map ?pair (map (\<lambda>i. (oldLines ! i, newLines ! i)) [0 ..< length oldLines])"
    by (simp only: map_map comp_def)
  also have "\<dots> = map ?pair (zip oldLines newLines)"
    by (simp only: zip_by_index [OF assms])
  finally show ?thesis
    unfolding diff_lines_def by (rule arg_cong)
qed

text \<open>
  C9. For a valid destination scope the lines of the rewritten content are the rewritten
  lines of the content, so both have the same number of lines; the preview then prints,
  in order, one old/new pair for every index at which the two lines differ and nothing
  for the others.
\<close>

theorem replacement_keeps_lines:
  assumes "isValidScope s"
  shows "split_lines (replaceReferences c s) = map (\<lambda>l. replaceReferences l s) (split_lines c) \<and>
         length (split_lines (replaceReferences c s)) = length (split_lines c) \<and>
         diff_lines (split_lines c) (split_lines (replaceReferences c s)) =
           concat (map (\<lambda>(old, new). if old \<noteq> new then [DiffOld old, DiffNew (Some new)] else [])
             (zip (split_lines c) (split_lines (replaceReferences c s))))"
proof -
  note v = valid_scope_plain [OF assms]
  have a: "split_lines (replaceReferences c s) = map (\<lambda>l. replaceReferences l s) (split_lines c)"
    unfolding split_lines_def replaceReferences_js
    by (rule split_at_js_replace) (use v in simp_all)
  then have b: "length (split_lines (replaceReferences c s)) = length (split_lines c)" by simp
  from a b diff_lines_zip [OF b] show ?thesis by blast
qed

theorem replacement_keeps_lines_witness:
  "isValidScope ''myorg'' \<and>
   split_lines ''a @ordinarysh/ui\<newline>b'' = [''a @ordinarysh/ui'', ''b''] \<and>
   split_lines (replaceReferences ''a @ordinarysh/ui\<newline>b'' ''myorg'') =
     [''a @myorg/ui'', ''b''] \<and>
   diff_lines (split_lines ''a @ordinarysh/ui\<newline>b'')
     (split_lines (replaceReferences ''a @ordinarysh/ui\<newline>b'' ''myorg'')) =
     [DiffOld ''a @ordinarysh/ui'', DiffNew (Some ''a @myorg/ui'')]"
proof -
  let ?c = "''a @ordinarysh/ui\<newline>b''"
  have sp: "split_lines ?c = [''a @ordinarysh/ui'', ''b'']"
    by (simp add: split_lines_def)
  have r: "replaceReferences ''a @ordinarysh/ui'' ''myorg'' = ''a @myorg/ui''"
    "replaceReferences ''b'' ''myorg'' = ''b''"
    by (simp_all add: replaceReferences_def js_replace_def prefix_regex_def replace_from.simps)
  note t = replacement_keeps_lines [OF ex_valid_myorg, of ?c]
  from t have n: "split_lines (replaceReferences ?c ''myorg'') = [''a @myorg/ui'', ''b'']"
    by (simp only: sp r list.map)
  have "diff_lines (split_lines ?c) (split_lines (replaceReferences ?c ''myorg'')) =
      [DiffOld ''a @ordinarysh/ui'', DiffNew (Some ''a @myorg/ui'')]"
    by (subst t [THEN conjunct2, THEN conjunct2]) (simp add: n sp)
  with sp n ex_valid_myorg show ?thesis by simp
qed

end
